theory Spec2Isabelle
  imports Main "HOL-Library.Sublist"
begin

section \<open>Data of the relay: bytes, text, exceptions\<close>

text \<open>
  The program is \<^verbatim>\<open>proxy-relay.py\<close>. Python \<^verbatim>\<open>bytes\<close> are lists of
  8-bit characters; a Python \<^verbatim>\<open>str\<close> is a list of Unicode code points (natural
  numbers below \<^verbatim>\<open>0x110000\<close>). An ASCII literal of the source is written
  \<open>ascii ''...''\<close>.
\<close>

type_synonym bytes = "char list"
type_synonym str = "nat list"

definition ascii :: "string \<Rightarrow> str" where
  "ascii s = map of_char s"

text \<open>The exceptions (all subclasses of \<^verbatim>\<open>Exception\<close>) the program can meet.\<close>

datatype exn =
    ValueError
  | IndexError
  | OSError
  | Timeout
  | UnicodeDecodeError
  | UnicodeEncodeError
  | UnboundLocalError
  | RuntimeError

text \<open>
  The parts of the Unicode character database used by \<^verbatim>\<open>str.lower\<close>,
  \<^verbatim>\<open>str.upper\<close> and \<^verbatim>\<open>int\<close> on code points outside ASCII are a
  parameter of the model; the ASCII part is written out.
\<close>

record unicode_db =
  uc_lower :: "nat \<Rightarrow> nat list"
  uc_upper :: "nat \<Rightarrow> nat list"
  uc_space :: "nat \<Rightarrow> bool"
  uc_decimal :: "nat \<Rightarrow> nat option"

section \<open>Python's sequence operations\<close>

text \<open>\<^verbatim>\<open>s.startswith(p)\<close>\<close>

fun startswith :: "'a list \<Rightarrow> 'a list \<Rightarrow> bool" where
  "startswith s [] = True"
| "startswith [] (p # ps) = False"
| "startswith (x # xs) (p # ps) = (x = p \<and> startswith xs ps)"

text \<open>\<^verbatim>\<open>sub in s\<close>\<close>

fun py_in :: "'a list \<Rightarrow> 'a list \<Rightarrow> bool" where
  "py_in sub [] = (sub = [])"
| "py_in sub (x # xs) = (startswith (x # xs) sub \<or> py_in sub xs)"

text \<open>\<^verbatim>\<open>s.index(sub)\<close>: the first position of \<open>sub\<close>, \<^verbatim>\<open>ValueError\<close> when absent.\<close>

fun py_find :: "'a list \<Rightarrow> 'a list \<Rightarrow> nat option" where
  "py_find [] sub = (if sub = [] then Some 0 else None)"
| "py_find (x # xs) sub =
     (if startswith (x # xs) sub then Some 0 else map_option Suc (py_find xs sub))"

definition py_index :: "'a list \<Rightarrow> 'a list \<Rightarrow> exn + nat" where
  "py_index s sub = (case py_find s sub of None \<Rightarrow> Inl ValueError | Some i \<Rightarrow> Inr i)"

text \<open>
  \<^verbatim>\<open>s.split(sep)\<close>, \<^verbatim>\<open>s.split(sep, 1)\<close>, \<^verbatim>\<open>s.rsplit(sep, 1)\<close> and
  \<^verbatim>\<open>s.replace(old, new)\<close> for a non-empty separator (every separator of the source is
  a non-empty literal): matches are found left to right and do not overlap.
\<close>

fun py_split :: "'a list \<Rightarrow> 'a list \<Rightarrow> 'a list list" where
  "py_split [] sep = [[]]"
| "py_split (x # xs) sep =
     (if startswith (x # xs) sep then [] # py_split (drop (length sep - 1) xs) sep
      else (case py_split xs sep of
              [] \<Rightarrow> [[x]]
            | l # ls \<Rightarrow> (x # l) # ls))"

fun py_split1 :: "'a list \<Rightarrow> 'a list \<Rightarrow> 'a list list" where
  "py_split1 [] sep = [[]]"
| "py_split1 (x # xs) sep =
     (if startswith (x # xs) sep then [[], drop (length sep - 1) xs]
      else (case py_split1 xs sep of
              [] \<Rightarrow> [[x]]
            | l # ls \<Rightarrow> (x # l) # ls))"

definition py_rsplit1 :: "'a list \<Rightarrow> 'a list \<Rightarrow> 'a list list" where
  "py_rsplit1 s sep = rev (map rev (py_split1 (rev s) (rev sep)))"

fun py_replace :: "'a list \<Rightarrow> 'a list \<Rightarrow> 'a list \<Rightarrow> 'a list" where
  "py_replace [] old new = []"
| "py_replace (x # xs) old new =
     (if startswith (x # xs) old then new @ py_replace (drop (length old - 1) xs) old new
      else x # py_replace xs old new)"

text \<open>
  \<^verbatim>\<open>a, b = xs\<close>: unpacking into two names raises \<^verbatim>\<open>ValueError\<close> unless the list
  has exactly two elements.
\<close>

fun unpack2 :: "'a list \<Rightarrow> exn + ('a \<times> 'a)" where
  "unpack2 [a, b] = Inr (a, b)"
| "unpack2 xs = Inl ValueError"

subsection \<open>\<^verbatim>\<open>int(s)\<close> on a string\<close>

text \<open>
  CPython first maps every non-ASCII white-space code point to a blank and every non-ASCII
  decimal digit to its ASCII digit (anything else outside ASCII becomes \<^verbatim>\<open>?\<close>, which
  no integer literal contains); it then skips leading ASCII white space, reads an optional
  sign, reads digits separated by single underscores, skips trailing white space and
  requires the end of the string. More than 4300 digits are refused.
\<close>

definition to_ascii_digits :: "unicode_db \<Rightarrow> nat \<Rightarrow> nat" where
  "to_ascii_digits db c =
     (if c < 127 then c
      else if uc_space db c then 32
      else (case uc_decimal db c of Some d \<Rightarrow> 48 + d | None \<Rightarrow> 63))"

definition is_py_space :: "nat \<Rightarrow> bool" where
  "is_py_space c = (c = 32 \<or> (9 \<le> c \<and> c \<le> 13))"

definition is_digit :: "nat \<Rightarrow> bool" where
  "is_digit c = (48 \<le> c \<and> c \<le> 57)"

fun underscores_ok :: "nat list \<Rightarrow> bool" where
  "underscores_ok [] = False"
| "underscores_ok [c] = is_digit c"
| "underscores_ok (c # d # cs) =
     (if c = 95 then False
      else if d = 95 then (case cs of [] \<Rightarrow> False | e # es \<Rightarrow> e \<noteq> 95 \<and> underscores_ok cs)
      else underscores_ok (d # cs))"

definition digits_value :: "nat list \<Rightarrow> nat" where
  "digits_value ds = foldl (\<lambda>a c. 10 * a + (c - 48)) 0 ds"

definition max_str_digits :: nat where
  "max_str_digits = 4300"

definition py_int :: "unicode_db \<Rightarrow> str \<Rightarrow> exn + int" where
  "py_int db s =
     (let t = dropWhile is_py_space (map (to_ascii_digits db) s);
          neg = (case t of c # _ \<Rightarrow> c = 45 | [] \<Rightarrow> False);
          u = (case t of c # cs \<Rightarrow> if c = 43 \<or> c = 45 then cs else t | [] \<Rightarrow> t);
          body = takeWhile (\<lambda>c. is_digit c \<or> c = 95) u;
          trail = dropWhile (\<lambda>c. is_digit c \<or> c = 95) u;
          ds = filter is_digit body
      in if \<not> underscores_ok body then Inl ValueError
         else if dropWhile is_py_space trail \<noteq> [] then Inl ValueError
         else if length ds > max_str_digits then Inl ValueError
         else Inr (if neg then - int (digits_value ds) else int (digits_value ds)))"

section \<open>Config Resolver: \<^verbatim>\<open>parse_proxy_url\<close>\<close>

text \<open>
  \<^verbatim>\<open>
  def parse_proxy_url(url):
      url = url.replace("http://", "")
      if "@" in url:
          creds, hostport = url.rsplit("@", 1)
          user, password = creds.split(":", 1)
      else:
          user, password = None, None
          hostport = url
      host, port = hostport.split(":")
      return host, int(port), user, password
  \<close>
\<close>

definition parse_proxy_url ::
  "unicode_db \<Rightarrow> str \<Rightarrow> exn + (str \<times> int \<times> str option \<times> str option)" where
  "parse_proxy_url db url0 =
     (let url = py_replace url0 (ascii ''http://'') [] in
      case (if py_in (ascii ''@'') url
            then (case unpack2 (py_rsplit1 url (ascii ''@'')) of
                    Inl e \<Rightarrow> Inl e
                  | Inr (creds, hostport) \<Rightarrow>
                      (case unpack2 (py_split1 creds (ascii '':'')) of
                         Inl e \<Rightarrow> Inl e
                       | Inr (user, password) \<Rightarrow> Inr (Some user, Some password, hostport)))
            else Inr (None, None, url)) of
        Inl e \<Rightarrow> Inl e
      | Inr (user, password, hostport) \<Rightarrow>
          (case unpack2 (py_split hostport (ascii '':'')) of
             Inl e \<Rightarrow> Inl e
           | Inr (host, port) \<Rightarrow>
               (case py_int db port of
                  Inl e \<Rightarrow> Inl e
                | Inr p \<Rightarrow> Inr (host, p, user, password))))"

section \<open>Text encoding\<close>

subsection \<open>\<^verbatim>\<open>str.encode()\<close>: UTF-8, strict\<close>

text \<open>A surrogate code point cannot be encoded: \<^verbatim>\<open>UnicodeEncodeError\<close>.\<close>

definition utf8_encode_cp :: "nat \<Rightarrow> exn + bytes" where
  "utf8_encode_cp c =
     (if c < 0x80 then Inr [char_of c]
      else if c < 0x800 then Inr [char_of (0xC0 + c div 64), char_of (0x80 + c mod 64)]
      else if 0xD800 \<le> c \<and> c \<le> 0xDFFF then Inl UnicodeEncodeError
      else if c < 0x10000 then
        Inr [char_of (0xE0 + c div 4096), char_of (0x80 + c div 64 mod 64),
             char_of (0x80 + c mod 64)]
      else
        Inr [char_of (0xF0 + c div 262144), char_of (0x80 + c div 4096 mod 64),
             char_of (0x80 + c div 64 mod 64), char_of (0x80 + c mod 64)])"

fun utf8_encode :: "str \<Rightarrow> exn + bytes" where
  "utf8_encode [] = Inr []"
| "utf8_encode (c # cs) =
     (case utf8_encode_cp c of
        Inl e \<Rightarrow> Inl e
      | Inr b \<Rightarrow> (case utf8_encode cs of Inl e \<Rightarrow> Inl e | Inr bs \<Rightarrow> Inr (b @ bs)))"

subsection \<open>\<^verbatim>\<open>bytes.decode()\<close>: UTF-8, strict or with \<^verbatim>\<open>errors="replace"\<close>\<close>

text \<open>
  The scanner follows CPython's decoder on the byte values: it yields \<open>Some c\<close> for a
  well-formed sequence and \<open>None\<close> for each ill-formed stretch that the decoder reports
  as one error (an invalid start byte; a lead byte up to the first byte that cannot
  continue it; a truncated sequence at the end of the data). The strict decoder raises at
  the first error, the replacing decoder puts U+FFFD for each.
\<close>

definition is_cont :: "nat \<Rightarrow> bool" where
  "is_cont c = (0x80 \<le> c \<and> c < 0xC0)"

fun utf8_scan :: "nat list \<Rightarrow> nat option list" where
  "utf8_scan [] = []"
| "utf8_scan (b # bs) =
     (if b < 0x80 then Some b # utf8_scan bs
      else if b < 0xC2 then None # utf8_scan bs
      else if b < 0xE0 then
        (case bs of
           [] \<Rightarrow> [None]
         | c # cs \<Rightarrow>
             if is_cont c then Some ((b - 0xC0) * 64 + (c - 0x80)) # utf8_scan cs
             else None # utf8_scan bs)
      else if b < 0xF0 then
        (case bs of
           [] \<Rightarrow> [None]
         | c # cs \<Rightarrow>
             if \<not> is_cont c \<or> (if c < 0xA0 then b = 0xE0 else b = 0xED)
             then None # utf8_scan bs
             else (case cs of
                     [] \<Rightarrow> [None]
                   | d # ds \<Rightarrow>
                       if is_cont d
                       then Some ((b - 0xE0) * 4096 + (c - 0x80) * 64 + (d - 0x80)) # utf8_scan ds
                       else None # utf8_scan cs))
      else if b < 0xF5 then
        (case bs of
           [] \<Rightarrow> [None]
         | c # cs \<Rightarrow>
             if \<not> is_cont c \<or> (if c < 0x90 then b = 0xF0 else b = 0xF4)
             then None # utf8_scan bs
             else (case cs of
                     [] \<Rightarrow> [None]
                   | d # ds \<Rightarrow>
                       if \<not> is_cont d then None # utf8_scan cs
                       else (case ds of
                               [] \<Rightarrow> [None]
                             | e # es \<Rightarrow>
                                 if is_cont e
                                 then Some ((b - 0xF0) * 262144 + (c - 0x80) * 4096
                                            + (d - 0x80) * 64 + (e - 0x80)) # utf8_scan es
                                 else None # utf8_scan ds)))
      else None # utf8_scan bs)"

definition utf8_decode_replace :: "bytes \<Rightarrow> str" where
  "utf8_decode_replace bs =
     map (\<lambda>r. case r of Some c \<Rightarrow> c | None \<Rightarrow> 0xFFFD) (utf8_scan (map of_char bs))"

definition utf8_decode :: "bytes \<Rightarrow> exn + str" where
  "utf8_decode bs =
     (case those (utf8_scan (map of_char bs)) of
        None \<Rightarrow> Inl UnicodeDecodeError
      | Some s \<Rightarrow> Inr s)"

subsection \<open>\<^verbatim>\<open>str.lower()\<close> and \<^verbatim>\<open>str.upper()\<close>\<close>

definition py_lower :: "unicode_db \<Rightarrow> str \<Rightarrow> str" where
  "py_lower db s =
     concat (map (\<lambda>c. if 65 \<le> c \<and> c \<le> 90 then [c + 32]
                        else if c < 128 then [c] else uc_lower db c) s)"

definition py_upper :: "unicode_db \<Rightarrow> str \<Rightarrow> str" where
  "py_upper db s =
     concat (map (\<lambda>c. if 97 \<le> c \<and> c \<le> 122 then [c - 32]
                        else if c < 128 then [c] else uc_upper db c) s)"

subsection \<open>\<^verbatim>\<open>base64.b64encode\<close>\<close>

definition b64_alphabet :: "char list" where
  "b64_alphabet = ''ABCDEFGHIJKLMNOPQRSTUVWXYZabcdefghijklmnopqrstuvwxyz0123456789+/''"

definition b64_char :: "nat \<Rightarrow> char" where
  "b64_char i = b64_alphabet ! (i mod 64)"

fun b64encode :: "bytes \<Rightarrow> bytes" where
  "b64encode [] = []"
| "b64encode [a] =
     [b64_char (of_char a div 4), b64_char (of_char a mod 4 * 16), CHR ''='', CHR ''='']"
| "b64encode [a, b] =
     [b64_char (of_char a div 4), b64_char (of_char a mod 4 * 16 + of_char b div 16),
      b64_char (of_char b mod 16 * 4), CHR ''='']"
| "b64encode (a # b # c # bs) =
     [b64_char (of_char a div 4), b64_char (of_char a mod 4 * 16 + of_char b div 16),
      b64_char (of_char b mod 16 * 4 + of_char c div 64), b64_char (of_char c mod 64)]
     @ b64encode bs"

section \<open>\<^verbatim>\<open>make_auth_header\<close>\<close>

text \<open>
  \<^verbatim>\<open>
  def make_auth_header(user, password):
      creds = f"{user}:{password}"
      b64 = base64.b64encode(creds.encode()).decode()
      return f"Proxy-Authorization: Basic {b64}\r\n"
  \<close>
  Both arguments are a string or \<^verbatim>\<open>None\<close>, which an f-string formats as
  \<^verbatim>\<open>None\<close>.
\<close>

definition crlf :: "char list" where
  "crlf = [CHR 0x0D, CHR 0x0A]"

definition py_format :: "str option \<Rightarrow> str" where
  "py_format v = (case v of None \<Rightarrow> ascii ''None'' | Some s \<Rightarrow> s)"

definition make_auth_header :: "str option \<Rightarrow> str option \<Rightarrow> exn + str" where
  "make_auth_header user password =
     (let creds = py_format user @ ascii '':'' @ py_format password in
      case utf8_encode creds of
        Inl e \<Rightarrow> Inl e
      | Inr raw \<Rightarrow>
          (case utf8_decode (b64encode raw) of
             Inl e \<Rightarrow> Inl e
           | Inr b64 \<Rightarrow> Inr (ascii ''Proxy-Authorization: Basic '' @ b64 @ ascii crlf)))"

section \<open>Sockets and the outside world\<close>

text \<open>
  The program talks to two sockets per session. What the program does to them is recorded
  as a trace of calls, in program order; what the outside world does is an input of the
  model: for each socket the list of things successive \<^verbatim>\<open>recv\<close> calls meet, and for
  each call that can fail, whether it raises.
\<close>

datatype sock = Client | Upstream

datatype message =
    Relay_Error exn
  | Connect_Failed str

datatype event =
    Recv sock nat
  | Send_All sock bytes
  | Shutdown_Wr sock
  | Close sock
  | Socket_New
  | Set_Timeout nat
  | Connect str int
  | Stderr message
  | Thread_Start sock sock
  | Thread_Join sock sock nat

text \<open>
  \<open>Stderr (Relay_Error e)\<close> is the line \<^verbatim>\<open>[proxy-relay] Error: {e}\<close>,
  \<open>Stderr (Connect_Failed l)\<close> the line
  \<^verbatim>\<open>[proxy-relay] Upstream CONNECT failed: {l}\<close>. \<open>Thread_Start src dst\<close> is the
  start of a thread running \<^verbatim>\<open>relay(src, dst)\<close>, \<open>Thread_Join src dst t\<close> the join on
  it with timeout \<open>t\<close>.

  Incoming data: \<open>Data bs\<close> is a stretch of bytes that has arrived when \<^verbatim>\<open>recv\<close> is
  called (\<open>Data []\<close>: the peer has closed, \<^verbatim>\<open>recv\<close> returns \<^verbatim>\<open>b""\<close>);
  \<open>Rx_Raises e\<close> makes the call raise (a reset, a timeout). When the list is exhausted
  nothing more ever arrives and the call does not return.
\<close>

datatype rx = Data bytes | Rx_Raises exn

datatype recv_result = Rx_Got bytes | Rx_Raised exn | Rx_Blocks

text \<open>\<^verbatim>\<open>sock.recv(n)\<close> returns at most \<open>n\<close> bytes; the remainder stays in the socket.\<close>

fun sock_recv :: "nat \<Rightarrow> rx list \<Rightarrow> recv_result \<times> rx list" where
  "sock_recv n [] = (Rx_Blocks, [])"
| "sock_recv n (Rx_Raises e # rs) = (Rx_Raised e, rs)"
| "sock_recv n (Data bs # rs) =
     (if length bs \<le> n then (Rx_Got bs, rs)
      else (Rx_Got (take n bs), Data (drop n bs) # rs))"

fun rx_size :: "rx list \<Rightarrow> nat" where
  "rx_size [] = 0"
| "rx_size (Data bs # rs) = Suc (length bs + rx_size rs)"
| "rx_size (Rx_Raises e # rs) = Suc (rx_size rs)"

text \<open>How a stretch of Python code ends: it completes, it raises, or it never returns.\<close>

datatype 'a outcome = Returns 'a | Raises exn | Blocks

section \<open>Bidirectional Relay: \<^verbatim>\<open>relay\<close>\<close>

text \<open>
  \<^verbatim>\<open>
  def relay(src, dst):
      try:
          while True:
              data = src.recv(65536)
              if not data:
                  break
              dst.sendall(data)
      except Exception:
          pass
      finally:
          try:
              dst.shutdown(socket.SHUT_WR)
          except Exception:
              pass
  \<close>
  \<open>relay_loop\<close> is the \<^verbatim>\<open>while\<close> loop: \<open>rs\<close> is what arrives on \<open>src\<close>, \<open>ts\<close> says
  for the successive \<^verbatim>\<open>sendall\<close> calls whether they raise (none does once the list
  is exhausted).
\<close>

function relay_loop ::
  "sock \<Rightarrow> sock \<Rightarrow> rx list \<Rightarrow> exn option list \<Rightarrow> unit outcome \<times> event list" where
  "relay_loop src dst rs ts =
     (case sock_recv 65536 rs of
        (Rx_Blocks, _) \<Rightarrow> (Blocks, [Recv src 65536])
      | (Rx_Raised e, _) \<Rightarrow> (Raises e, [Recv src 65536])
      | (Rx_Got data, rs') \<Rightarrow>
          if data = [] then (Returns (), [Recv src 65536])
          else (case (case ts of [] \<Rightarrow> None | t # _ \<Rightarrow> t) of
                  Some e \<Rightarrow> (Raises e, [Recv src 65536, Send_All dst data])
                | None \<Rightarrow>
                    (case relay_loop src dst rs' (tl ts) of
                       (r, ev) \<Rightarrow> (r, Recv src 65536 # Send_All dst data # ev))))"
  by pat_completeness auto
termination
  apply (relation "measure (\<lambda>(src, dst, rs, ts). rx_size rs)")
   apply simp
  subgoal for src dst rs ts x y x1
    by (cases rs rule: rx_size.cases) (auto split: if_splits)
  done

text \<open>
  The whole of \<^verbatim>\<open>relay\<close>: an exception of the loop is dropped, and the half-close of
  \<open>dst\<close> follows whenever the loop ends (\<open>sd\<close>: the exception \<^verbatim>\<open>shutdown\<close> raises,
  if any, dropped as well).
\<close>

definition relay ::
  "sock \<Rightarrow> sock \<Rightarrow> rx list \<Rightarrow> exn option list \<Rightarrow> exn option \<Rightarrow> unit outcome \<times> event list" where
  "relay src dst rs ts sd =
     (case relay_loop src dst rs ts of
        (Blocks, ev) \<Rightarrow> (Blocks, ev)
      | (_, ev) \<Rightarrow> (Returns (), ev @ [Shutdown_Wr dst]))"

section \<open>One session: \<^verbatim>\<open>handle_client\<close>\<close>

text \<open>
  What the outside world does during one session: the data arriving from the client and
  from the upstream proxy, and the exception (if any) raised by the creation of the
  upstream socket, by \<^verbatim>\<open>upstream.connect\<close>, by \<^verbatim>\<open>upstream.sendall\<close> and by
  \<^verbatim>\<open>client_sock.sendall\<close>. \<^verbatim>\<open>close\<close> on a socket object does not raise, and a
  second \<^verbatim>\<open>close\<close> does nothing; writes to the error stream and the creation and
  start of threads do not raise.
\<close>

record session_env =
  client_rx :: "rx list"
  upstream_new :: "exn option"
  upstream_connect :: "exn option"
  upstream_tx :: "exn option"
  upstream_rx :: "rx list"
  client_tx :: "exn option"

subsection \<open>Header Framer\<close>

text \<open>
  Both reading loops of the source have this shape (on \<^verbatim>\<open>client_sock\<close> and on
  \<^verbatim>\<open>upstream\<close>):
  \<^verbatim>\<open>
  data = b""
  while b"\r\n\r\n" not in data:
      chunk = sock.recv(4096)
      if not chunk:
          ...            # client: close and return; upstream: break
      data += chunk
  \<close>
\<close>

datatype read_result =
    Complete bytes
  | Peer_Closed bytes
  | Read_Raised exn
  | Read_Blocked

function recv_header_block :: "sock \<Rightarrow> bytes \<Rightarrow> rx list \<Rightarrow> read_result \<times> event list" where
  "recv_header_block s data rs =
     (if py_in (crlf @ crlf) data then (Complete data, [])
      else (case sock_recv 4096 rs of
              (Rx_Blocks, _) \<Rightarrow> (Read_Blocked, [Recv s 4096])
            | (Rx_Raised e, _) \<Rightarrow> (Read_Raised e, [Recv s 4096])
            | (Rx_Got chunk, rs') \<Rightarrow>
                if chunk = [] then (Peer_Closed data, [Recv s 4096])
                else (case recv_header_block s (data @ chunk) rs' of
                        (r, ev) \<Rightarrow> (r, Recv s 4096 # ev))))"
  by pat_completeness auto
termination
  apply (relation "measure (\<lambda>(s, data, rs). rx_size rs)")
   apply simp
  subgoal for s data rs x y x1
    by (cases rs rule: rx_size.cases) (auto split: if_splits)
  done

text \<open>
  \<^verbatim>\<open>
  header_end = data.index(b"\r\n\r\n")
  headers = data[:header_end].decode("utf-8", errors="replace")
  rest = data[header_end + 4:]
  \<close>
\<close>

definition split_header :: "bytes \<Rightarrow> exn + (str \<times> bytes)" where
  "split_header data =
     (case py_index data (crlf @ crlf) of
        Inl e \<Rightarrow> Inl e
      | Inr header_end \<Rightarrow>
          Inr (utf8_decode_replace (take header_end data), drop (header_end + 4) data))"

subsection \<open>Request Rewriter\<close>

text \<open>
  \<^verbatim>\<open>
  lines = headers.split("\r\n")
  request_line = lines[0]
  other_headers = [l for l in lines[1:]
                   if not l.lower().startswith("proxy-authorization:")]
  new_headers = request_line + "\r\n" + auth_header
  for h in other_headers:
      if h:
          new_headers += h + "\r\n"
  new_headers += "\r\n"
  \<close>
  The result is the pair of \<^verbatim>\<open>request_line\<close> and \<^verbatim>\<open>new_headers\<close>.
\<close>

definition is_proxy_authorization :: "unicode_db \<Rightarrow> str \<Rightarrow> bool" where
  "is_proxy_authorization db l = startswith (py_lower db l) (ascii ''proxy-authorization:'')"

definition rewrite_request :: "unicode_db \<Rightarrow> str \<Rightarrow> str \<Rightarrow> exn + (str \<times> str)" where
  "rewrite_request db auth_header headers =
     (case py_split headers (ascii crlf) of
        [] \<Rightarrow> Inl IndexError
      | request_line # rest_lines \<Rightarrow>
          (let other_headers = filter (\<lambda>l. \<not> is_proxy_authorization db l) rest_lines;
               new_headers =
                 foldl (\<lambda>acc h. if h \<noteq> [] then acc @ h @ ascii crlf else acc)
                   (request_line @ ascii crlf @ auth_header) other_headers
           in Inr (request_line, new_headers @ ascii crlf)))"

subsection \<open>Tunnel Negotiator\<close>

text \<open>
  The body of \<^verbatim>\<open>if request_line.upper().startswith("CONNECT")\<close>:
  \<^verbatim>\<open>
  resp = b""
  while b"\r\n\r\n" not in resp:
      chunk = upstream.recv(4096)
      if not chunk:
          break
      resp += chunk
  client_sock.sendall(resp)
  resp_line = resp.split(b"\r\n")[0].decode()
  if " 200 " in resp_line:
      t1 = threading.Thread(target=relay, args=(client_sock, upstream), daemon=True)
      t2 = threading.Thread(target=relay, args=(upstream, client_sock), daemon=True)
      t1.start()
      t2.start()
      t1.join(timeout=300)
      t2.join(timeout=300)
  else:
      sys.stderr.write(f"[proxy-relay] Upstream CONNECT failed: {resp_line}\n")
  \<close>
\<close>

definition tunnel_established :: "str \<Rightarrow> bool" where
  "tunnel_established resp_line = py_in (ascii '' 200 '') resp_line"

definition check_tunnel :: "bytes \<Rightarrow> unit outcome \<times> event list" where
  "check_tunnel resp =
     (case py_split resp crlf of
        [] \<Rightarrow> (Raises IndexError, [])
      | first # _ \<Rightarrow>
          (case utf8_decode first of
             Inl e \<Rightarrow> (Raises e, [])
           | Inr resp_line \<Rightarrow>
               if tunnel_established resp_line
               then (Returns (),
                     [Thread_Start Client Upstream, Thread_Start Upstream Client,
                      Thread_Join Client Upstream 300, Thread_Join Upstream Client 300])
               else (Returns (), [Stderr (Connect_Failed resp_line)])))"

definition negotiate :: "session_env \<Rightarrow> unit outcome \<times> event list" where
  "negotiate env =
     (case recv_header_block Upstream [] (upstream_rx env) of
        (Read_Blocked, ev) \<Rightarrow> (Blocks, ev)
      | (Read_Raised e, ev) \<Rightarrow> (Raises e, ev)
      | (r, ev) \<Rightarrow>
          (let resp = (case r of Complete d \<Rightarrow> d | Peer_Closed d \<Rightarrow> d | _ \<Rightarrow> []) in
           case client_tx env of
             Some e \<Rightarrow> (Raises e, ev @ [Send_All Client resp])
           | None \<Rightarrow>
               (case check_tunnel resp of
                  (r', ev') \<Rightarrow> (r', ev @ [Send_All Client resp] @ ev'))))"

subsection \<open>The body of the \<^verbatim>\<open>try\<close> block\<close>

text \<open>
  After the request has been framed:
  \<^verbatim>\<open>
  upstream = socket.socket(socket.AF_INET, socket.SOCK_STREAM)
  upstream.settimeout(30)
  upstream.connect((upstream_host, upstream_port))
  ...                                   # the rewriter
  upstream.sendall(new_headers.encode() + rest)
  if request_line.upper().startswith("CONNECT"):
      ...                               # the negotiator
  else:
      t1 = threading.Thread(target=relay, args=(upstream, client_sock), daemon=True)
      t1.start()
      t1.join(timeout=60)
  \<close>
  The second component of the result says whether the name \<^verbatim>\<open>upstream\<close> has been
  bound.
\<close>

definition is_connect :: "unicode_db \<Rightarrow> str \<Rightarrow> bool" where
  "is_connect db request_line = startswith (py_upper db request_line) (ascii ''CONNECT'')"

definition send_upstream ::
  "unicode_db \<Rightarrow> str \<Rightarrow> session_env \<Rightarrow> str \<Rightarrow> bytes \<Rightarrow> unit outcome \<times> event list" where
  "send_upstream db auth_header env headers rest =
     (case rewrite_request db auth_header headers of
        Inl e \<Rightarrow> (Raises e, [])
      | Inr (request_line, new_headers) \<Rightarrow>
          (case utf8_encode new_headers of
             Inl e \<Rightarrow> (Raises e, [])
           | Inr encoded \<Rightarrow>
               (case upstream_tx env of
                  Some e \<Rightarrow> (Raises e, [Send_All Upstream (encoded @ rest)])
                | None \<Rightarrow>
                    (case (if is_connect db request_line then negotiate env
                           else (Returns (),
                                 [Thread_Start Upstream Client, Thread_Join Upstream Client 60])) of
                       (r, ev) \<Rightarrow> (r, Send_All Upstream (encoded @ rest) # ev)))))"

definition serve_request ::
  "unicode_db \<Rightarrow> str \<Rightarrow> int \<Rightarrow> str \<Rightarrow> session_env \<Rightarrow> bytes
     \<Rightarrow> unit outcome \<times> bool \<times> event list" where
  "serve_request db upstream_host upstream_port auth_header env data =
     (case split_header data of
        Inl e \<Rightarrow> (Raises e, False, [])
      | Inr (headers, rest) \<Rightarrow>
          (case upstream_new env of
             Some e \<Rightarrow> (Raises e, False, [])
           | None \<Rightarrow>
               (case upstream_connect env of
                  Some e \<Rightarrow>
                    (Raises e, True,
                     [Socket_New, Set_Timeout 30, Connect upstream_host upstream_port])
                | None \<Rightarrow>
                    (case send_upstream db auth_header env headers rest of
                       (r, ev) \<Rightarrow>
                         (r, True,
                          [Socket_New, Set_Timeout 30, Connect upstream_host upstream_port]
                          @ ev)))))"

definition session_body ::
  "unicode_db \<Rightarrow> str \<Rightarrow> int \<Rightarrow> str \<Rightarrow> session_env \<Rightarrow> unit outcome \<times> bool \<times> event list" where
  "session_body db upstream_host upstream_port auth_header env =
     (case recv_header_block Client [] (client_rx env) of
        (Read_Blocked, ev) \<Rightarrow> (Blocks, False, ev)
      | (Read_Raised e, ev) \<Rightarrow> (Raises e, False, ev)
      | (Peer_Closed _, ev) \<Rightarrow> (Returns (), False, ev @ [Close Client])
      | (Complete data, ev) \<Rightarrow>
          (case serve_request db upstream_host upstream_port auth_header env data of
             (r, bound, ev') \<Rightarrow> (r, bound, ev @ ev')))"

subsection \<open>\<^verbatim>\<open>try\<close> / \<^verbatim>\<open>except\<close> / \<^verbatim>\<open>finally\<close>\<close>

text \<open>
  \<^verbatim>\<open>
  def handle_client(client_sock, upstream_host, upstream_port, auth_header):
      try:
          ...
      except Exception as e:
          sys.stderr.write(f"[proxy-relay] Error: {e}\n")
      finally:
          try:
              client_sock.close()
          except Exception:
              pass
          try:
              upstream.close()
          except Exception:
              pass
  \<close>
  \<open>except_clause\<close> turns a raised exception into a line on the error stream;
  \<open>finally_clause\<close> runs the two guarded closes, where \<^verbatim>\<open>upstream.close()\<close> on the
  unbound name raises \<^verbatim>\<open>UnboundLocalError\<close>, which is dropped. A body that never
  returns reaches neither.
\<close>

definition except_clause :: "unit outcome \<times> event list \<Rightarrow> unit outcome \<times> event list" where
  "except_clause x =
     (case x of
        (Raises e, ev) \<Rightarrow> (Returns (), ev @ [Stderr (Relay_Error e)])
      | (r, ev) \<Rightarrow> (r, ev))"

definition close_upstream :: "bool \<Rightarrow> unit outcome \<times> event list" where
  "close_upstream bound = (if bound then (Returns (), [Close Upstream]) else (Raises UnboundLocalError, []))"

definition finally_clause :: "bool \<Rightarrow> unit outcome \<times> event list \<Rightarrow> unit outcome \<times> event list" where
  "finally_clause bound x =
     (case x of
        (Blocks, ev) \<Rightarrow> (Blocks, ev)
      | (r, ev) \<Rightarrow> (r, ev @ [Close Client] @ snd (close_upstream bound)))"

definition handle_client ::
  "unicode_db \<Rightarrow> str \<Rightarrow> int \<Rightarrow> str \<Rightarrow> session_env \<Rightarrow> unit outcome \<times> bool \<times> event list" where
  "handle_client db upstream_host upstream_port auth_header env =
     (case session_body db upstream_host upstream_port auth_header env of
        (r, bound, ev) \<Rightarrow>
          (case finally_clause bound (except_clause (r, ev)) of
             (r', ev') \<Rightarrow> (r', bound, ev')))"

section \<open>The process: configuration and \<^verbatim>\<open>main\<close>\<close>

text \<open>
  \<^verbatim>\<open>
  LISTEN_PORT = int(os.environ.get("RELAY_PORT", "18080"))
  UPSTREAM_PROXY = os.environ.get("HTTPS_PROXY") or os.environ.get("HTTP_PROXY") \
      or os.environ.get("https_proxy") or os.environ.get("http_proxy")
  \<close>
  The environment maps variable names to strings. \<^verbatim>\<open>a or b\<close> is \<open>a\<close> when \<open>a\<close> is
  truthy (neither \<^verbatim>\<open>None\<close> nor the empty string) and \<open>b\<close> otherwise.
\<close>

type_synonym environ = "string \<Rightarrow> str option"

definition truthy :: "str option \<Rightarrow> bool" where
  "truthy v = (case v of None \<Rightarrow> False | Some s \<Rightarrow> s \<noteq> [])"

definition py_or :: "str option \<Rightarrow> str option \<Rightarrow> str option" where
  "py_or a b = (if truthy a then a else b)"

definition UPSTREAM_PROXY :: "environ \<Rightarrow> str option" where
  "UPSTREAM_PROXY environ =
     py_or (py_or (py_or (environ ''HTTPS_PROXY'') (environ ''HTTP_PROXY''))
              (environ ''https_proxy''))
       (environ ''http_proxy'')"

definition LISTEN_PORT :: "unicode_db \<Rightarrow> environ \<Rightarrow> exn + int" where
  "LISTEN_PORT db environ =
     py_int db (case environ ''RELAY_PORT'' of None \<Rightarrow> ascii ''18080'' | Some s \<Rightarrow> s)"

text \<open>
  What the process does, as far as the listener is concerned, and how it ends:
  \<^verbatim>\<open>sys.exit(n)\<close>, an exception that nothing catches, or the accept loop, which never
  ends and hands every accepted connection to \<^verbatim>\<open>handle_client\<close> with the resolved
  target and header.
\<close>

datatype proc_event =
    Stderr_Print str
  | Stderr_Traceback exn
  | Stdout_Print
  | Server_Socket
  | Set_Reuseaddr
  | Bind str int
  | Listen nat

datatype main_result =
    Sys_Exit nat
  | Uncaught exn
  | Accepting str int str

text \<open>
  \<^verbatim>\<open>
  def main():
      if not UPSTREAM_PROXY:
          print("ERROR: HTTPS_PROXY or HTTP_PROXY not set", file=sys.stderr)
          sys.exit(1)
      upstream_host, upstream_port, user, password = parse_proxy_url(UPSTREAM_PROXY)
      auth_header = make_auth_header(user, password) if user else ""
      server = socket.socket(socket.AF_INET, socket.SOCK_STREAM)
      server.setsockopt(socket.SOL_SOCKET, socket.SO_REUSEADDR, 1)
      server.bind(("127.0.0.1", LISTEN_PORT))
      server.listen(50)
      print(f"[proxy-relay] Listening on ...", flush=True)
      while True:
          client_sock, addr = server.accept()
          t = threading.Thread(target=handle_client, args=(client_sock, upstream_host,
                               upstream_port, auth_header), daemon=True)
          t.start()
  \<close>
  \<open>bind_raises\<close>: the exception of \<^verbatim>\<open>server.bind\<close>, if any (the port is taken).
\<close>

definition main ::
  "unicode_db \<Rightarrow> str option \<Rightarrow> int \<Rightarrow> exn option \<Rightarrow> main_result \<times> proc_event list" where
  "main db upstream_proxy listen_port bind_raises =
     (case upstream_proxy of
        None \<Rightarrow> (Sys_Exit 1, [Stderr_Print (ascii ''ERROR: HTTPS_PROXY or HTTP_PROXY not set'')])
      | Some url \<Rightarrow>
          if url = []
          then (Sys_Exit 1, [Stderr_Print (ascii ''ERROR: HTTPS_PROXY or HTTP_PROXY not set'')])
          else (case parse_proxy_url db url of
                  Inl e \<Rightarrow> (Uncaught e, [])
                | Inr (upstream_host, upstream_port, user, password) \<Rightarrow>
                    (case (if truthy user then make_auth_header user password else Inr []) of
                       Inl e \<Rightarrow> (Uncaught e, [])
                     | Inr auth_header \<Rightarrow>
                         (case bind_raises of
                            Some e \<Rightarrow>
                              (Uncaught e,
                               [Server_Socket, Set_Reuseaddr, Bind (ascii ''127.0.0.1'') listen_port])
                          | None \<Rightarrow>
                              (Accepting upstream_host upstream_port auth_header,
                               [Server_Socket, Set_Reuseaddr, Bind (ascii ''127.0.0.1'') listen_port,
                                Listen 50, Stdout_Print])))))"

text \<open>
  The module as a script: the two module-level assignments, then \<^verbatim>\<open>main()\<close>. The
  interpreter ends a process whose exception nothing catches with a traceback on the
  error stream and exit status 1; \<^verbatim>\<open>sys.exit(n)\<close> ends it with status \<open>n\<close>.
\<close>

datatype process_end = Exit_Status nat | Serving str int str

definition run_script ::
  "unicode_db \<Rightarrow> environ \<Rightarrow> exn option \<Rightarrow> process_end \<times> proc_event list" where
  "run_script db environ bind_raises =
     (case LISTEN_PORT db environ of
        Inl e \<Rightarrow> (Exit_Status 1, [Stderr_Traceback e])
      | Inr listen_port \<Rightarrow>
          (case main db (UPSTREAM_PROXY environ) listen_port bind_raises of
             (Sys_Exit n, ev) \<Rightarrow> (Exit_Status n, ev)
           | (Uncaught e, ev) \<Rightarrow> (Exit_Status 1, ev @ [Stderr_Traceback e])
           | (Accepting h p a, ev) \<Rightarrow> (Serving h p a, ev)))"

section \<open>Reading traces\<close>

text \<open>
  The calls that open the upstream connection, and the bytes that arrive on a socket
  before its peer closes or a \<^verbatim>\<open>recv\<close> raises.
\<close>

fun opens_upstream :: "event \<Rightarrow> bool" where
  "opens_upstream Socket_New = True"
| "opens_upstream (Connect h p) = True"
| "opens_upstream e = False"

fun rx_bytes :: "rx list \<Rightarrow> bytes" where
  "rx_bytes [] = []"
| "rx_bytes (Rx_Raises e # rs) = []"
| "rx_bytes (Data bs # rs) = (if bs = [] then [] else bs @ rx_bytes rs)"

text \<open>Whether the incoming data ends at all: with the peer's close or with an exception.\<close>

fun rx_ends :: "rx list \<Rightarrow> bool" where
  "rx_ends [] = False"
| "rx_ends (Rx_Raises e # rs) = True"
| "rx_ends (Data bs # rs) = (bs = [] \<or> rx_ends rs)"

text \<open>\<^verbatim>\<open>sep.join(ps)\<close>, the inverse of \<^verbatim>\<open>split\<close>, used to read rewritten headers.\<close>

fun py_join :: "'a list \<Rightarrow> 'a list list \<Rightarrow> 'a list" where
  "py_join sep [] = []"
| "py_join sep [p] = p"
| "py_join sep (p # q # ps) = p @ sep @ py_join sep (q # ps)"

text \<open>
  One step of the scanner \<open>utf8_scan\<close>: what it yields for the sequence that starts with
  the byte \<open>b\<close> (followed by \<open>bs\<close>), and how many bytes that sequence has.
\<close>

definition utf8_step :: "nat \<Rightarrow> nat list \<Rightarrow> nat option \<times> nat" where
  "utf8_step b bs =
     (if b < 0x80 then (Some b, 1)
      else if b < 0xC2 then (None, 1)
      else if b < 0xE0 then
        (case bs of
           [] \<Rightarrow> (None, 1)
         | c # cs \<Rightarrow>
             if is_cont c then (Some ((b - 0xC0) * 64 + (c - 0x80)), 2) else (None, 1))
      else if b < 0xF0 then
        (case bs of
           [] \<Rightarrow> (None, 1)
         | c # cs \<Rightarrow>
             if \<not> is_cont c \<or> (if c < 0xA0 then b = 0xE0 else b = 0xED) then (None, 1)
             else (case cs of
                     [] \<Rightarrow> (None, 2)
                   | d # ds \<Rightarrow>
                       if is_cont d
                       then (Some ((b - 0xE0) * 4096 + (c - 0x80) * 64 + (d - 0x80)), 3)
                       else (None, 2)))
      else if b < 0xF5 then
        (case bs of
           [] \<Rightarrow> (None, 1)
         | c # cs \<Rightarrow>
             if \<not> is_cont c \<or> (if c < 0x90 then b = 0xF0 else b = 0xF4) then (None, 1)
             else (case cs of
                     [] \<Rightarrow> (None, 2)
                   | d # ds \<Rightarrow>
                       if \<not> is_cont d then (None, 2)
                       else (case ds of
                               [] \<Rightarrow> (None, 3)
                             | e # es \<Rightarrow>
                                 if is_cont e
                                 then (Some ((b - 0xF0) * 262144 + (c - 0x80) * 4096
                                             + (d - 0x80) * 64 + (e - 0x80)), 4)
                                 else (None, 3))))
      else (None, 1))"

section \<open>A Unicode database without entries\<close>

text \<open>
  For evaluating the model on ASCII inputs: no code point outside ASCII changes case, is
  white space or is a digit.
\<close>

definition ascii_db :: unicode_db where
  "ascii_db = \<lparr>uc_lower = (\<lambda>c. [c]), uc_upper = (\<lambda>c. [c]), uc_space = (\<lambda>c. False),
     uc_decimal = (\<lambda>c. None)\<rparr>"

section \<open>Scenarios of the specification\<close>

text \<open>
  The client sends \<^verbatim>\<open>CONNECT example.com:443 HTTP/1.1\r\nHost: example.com\r\n\r\n\<close>
  in one piece and the upstream proxy answers with \<open>resp\<close> in one piece; no call
  raises.
\<close>

definition connect_request :: bytes where
  "connect_request = ''CONNECT example.com:443 HTTP/1.1'' @ crlf @ ''Host: example.com''"

definition scenario :: "bytes \<Rightarrow> session_env" where
  "scenario resp =
     \<lparr>client_rx = [Data (connect_request @ crlf @ crlf)], upstream_new = None,
      upstream_connect = None, upstream_tx = None, upstream_rx = [Data resp],
      client_tx = None\<rparr>"


section \<open>Verification\<close>


section \<open>Verification\<close>

section \<open>Properties of the sequence operations\<close>

declare recv_header_block.simps [simp del] relay_loop.simps [simp del]

lemma startswith_iff: "startswith s p \<longleftrightarrow> (\<exists>r. s = p @ r)"
  by (induction s p rule: startswith.induct) auto

lemma startswith_append [simp]: "startswith (p @ r) p"
  by (simp add: startswith_iff)

lemma startswith_single: "startswith s [c] \<longleftrightarrow> (\<exists>r. s = c # r)"
  by (simp add: startswith_iff)

lemma py_in_single: "py_in [c] s \<longleftrightarrow> c \<in> set s"
  by (induction s) (auto simp: startswith_iff)

lemma py_replace_absent: "\<not> py_in old s \<Longrightarrow> py_replace s old new = s"
  by (induction s) auto

lemma py_replace_prefix:
  "old \<noteq> [] \<Longrightarrow> py_replace (old @ s) old new = new @ py_replace s old new"
  by (cases old) auto


lemma py_split1_first: "c \<notin> set a \<Longrightarrow> py_split1 (a @ c # b) [c] = [a, b]"
  by (induction a) (auto simp: startswith_iff)

lemma py_rsplit1_last: "c \<notin> set b \<Longrightarrow> py_rsplit1 (a @ c # b) [c] = [a, b]"
  by (simp add: py_rsplit1_def py_split1_first)

lemma py_split_absent: "c \<notin> set s \<Longrightarrow> py_split s [c] = [s]"
  by (induction s) (auto simp: startswith_iff)

lemma py_split_once: "c \<notin> set a \<Longrightarrow> c \<notin> set b \<Longrightarrow> py_split (a @ c # b) [c] = [a, b]"
  by (induction a) (auto simp: startswith_iff py_split_absent)



lemma underscores_ok_digits: "ds \<noteq> [] \<Longrightarrow> \<forall>c\<in>set ds. is_digit c \<Longrightarrow> underscores_ok ds"
  by (induction ds rule: underscores_ok.induct) (auto simp: is_digit_def)

lemma py_int_digits:
  assumes "ds \<noteq> []" "\<forall>c\<in>set ds. is_digit c" "length ds \<le> max_str_digits"
  shows "py_int db ds = Inr (int (digits_value ds))"
proof -
  have m: "map (to_ascii_digits db) ds = ds"
    using assms(2) by (induction ds) (auto simp: to_ascii_digits_def is_digit_def)
  obtain c cs where ds: "ds = c # cs" using assms(1) by (cases ds) auto
  have c: "is_digit c" using assms(2) ds by simp
  then have ns: "\<not> is_py_space c" "c \<noteq> 43" "c \<noteq> 45"
    by (auto simp: is_digit_def is_py_space_def)
  have d0: "dropWhile is_py_space ds = ds" using ds ns by simp
  have neg: "(case ds of c # _ \<Rightarrow> c = 45 | [] \<Rightarrow> False) = False"
    using ds ns by simp
  have u: "(case ds of c # cs \<Rightarrow> if c = 43 \<or> c = 45 then cs else ds | [] \<Rightarrow> ds) = ds"
    using ds ns by simp
  have tw: "takeWhile (\<lambda>c. is_digit c \<or> c = 95) ds = ds"
    using assms(2) by (simp add: takeWhile_eq_all_conv)
  have dw: "dropWhile (\<lambda>c. is_digit c \<or> c = 95) ds = []"
    using assms(2) by (simp add: dropWhile_eq_Nil_conv)
  have f: "filter is_digit ds = ds" using assms(2) by simp
  have ok: "underscores_ok ds" by (rule underscores_ok_digits[OF assms(1,2)])
  show ?thesis
    using assms(3) ok
    by (simp only: py_int_def Let_def m d0 neg u tw dw f) simp
qed

lemma py_in_iff: "py_in sub s \<longleftrightarrow> (\<exists>a b. s = a @ sub @ b)"
proof (induction s)
  case Nil
  then show ?case by auto
next
  case (Cons x xs)
  show ?case
  proof
    assume "py_in sub (x # xs)"
    then consider "startswith (x # xs) sub" | "py_in sub xs" by auto
    then show "\<exists>a b. x # xs = a @ sub @ b"
    proof cases
      case 1
      then obtain r where "x # xs = sub @ r" by (auto simp: startswith_iff)
      then have "x # xs = [] @ sub @ r" by simp
      then show ?thesis by blast
    next
      case 2
      then obtain a b where "xs = a @ sub @ b" using Cons.IH by blast
      then have "x # xs = (x # a) @ sub @ b" by simp
      then show ?thesis by blast
    qed
  next
    assume "\<exists>a b. x # xs = a @ sub @ b"
    then obtain a b where ab: "x # xs = a @ sub @ b" by blast
    show "py_in sub (x # xs)"
    proof (cases a)
      case Nil
      then have "startswith (x # xs) sub" using ab by (simp add: startswith_iff)
      then show ?thesis by simp
    next
      case (Cons y ys)
      then have "xs = ys @ sub @ b" using ab by simp
      then have "py_in sub xs" using Cons.IH by blast
      then show ?thesis by simp
    qed
  qed
qed

lemma py_in_append_left: "py_in sub s \<Longrightarrow> py_in sub (s @ t)"
  unfolding py_in_iff by (metis append.assoc)

lemma py_in_mid: "py_in sub (a @ sub @ b)"
  unfolding py_in_iff by blast

lemma py_find_first:
  "sub \<noteq> [] \<Longrightarrow> \<not> py_in sub (a @ butlast sub) \<Longrightarrow> py_find (a @ sub @ b) sub = Some (length a)"
proof (induction a)
  case Nil
  then show ?case by (cases sub) (auto simp: startswith_iff)
next
  case (Cons x xs)
  have "\<not> startswith (x # xs @ sub @ b) sub"
  proof
    assume "startswith (x # xs @ sub @ b) sub"
    then obtain r where r: "x # xs @ sub @ b = sub @ r" by (auto simp: startswith_iff)
    have len: "length sub \<le> length (x # xs @ butlast sub)" by simp
    have e: "x # xs @ sub @ b = (x # xs @ butlast sub) @ last sub # b"
      using append_butlast_last_id[OF Cons.prems(1)] by (metis append_Cons append_assoc append_Nil)
    have "sub = take (length sub) (sub @ r)" by simp
    also have "\<dots> = take (length sub) ((x # xs @ butlast sub) @ last sub # b)"
      using r e by simp
    also have "\<dots> = take (length sub) (x # xs @ butlast sub)"
      using len by (simp only: take_append) simp
    finally have "x # xs @ butlast sub = sub @ drop (length sub) (x # xs @ butlast sub)"
      by (metis append_take_drop_id)
    then have "startswith (x # xs @ butlast sub) sub"
      unfolding startswith_iff by blast
    then show False using Cons.prems(2) by simp
  qed
  moreover have "\<not> py_in sub (xs @ butlast sub)" using Cons.prems(2) by simp
  ultimately show ?case using Cons.IH Cons.prems(1) by simp
qed

section \<open>Config Resolver\<close>

lemma ascii_simps:
  "ascii ''http://'' = [104, 116, 116, 112, 58, 47, 47]"
  "ascii '':'' = [58]" "ascii ''@'' = [64]"
  by (simp_all add: ascii_def)

lemma digit_not_sep: "is_digit c \<Longrightarrow> c \<noteq> 58 \<and> c \<noteq> 64"
  by (auto simp: is_digit_def)


lemma parse_proxy_url_with_creds:
  assumes "py_replace url (ascii ''http://'') [] = u" "py_in (ascii ''@'') u"
    and "py_rsplit1 u (ascii ''@'') = [creds, hostport]"
  shows "parse_proxy_url db url =
     (case unpack2 (py_split1 creds (ascii '':'')) of
        Inl e \<Rightarrow> Inl e
      | Inr (user, password) \<Rightarrow>
          (case unpack2 (py_split hostport (ascii '':'')) of
             Inl e \<Rightarrow> Inl e
           | Inr (host, port) \<Rightarrow>
               (case py_int db port of
                  Inl e \<Rightarrow> Inl e
                | Inr p \<Rightarrow> Inr (host, p, Some user, Some password))))"
  using assms by (simp add: parse_proxy_url_def split: sum.splits prod.splits)


text \<open>
  Claim C2, as amended. For every URL \<^verbatim>\<open>http://user:pw@host:port\<close> in which
  \<^verbatim>\<open>http://\<close> does not occur again after the prefix, \<open>user\<close> has no colon
  (code point 58), \<open>host\<close> has neither a colon nor an at-sign (code point 64) and
  \<open>port\<close> is a non-empty string of at most 4300 ASCII digits, \<open>parse_proxy_url\<close>
  returns exactly \<open>(host, port, user, pw)\<close>: the credentials are split from host and
  port at the last at-sign and the user from the password at the first colon, so a
  password may contain colons and at-signs and is preserved in full.
\<close>

theorem parse_proxy_url_http_form:
  assumes form: "url = ascii ''http://'' @ user @ ascii '':'' @ pw @ ascii ''@'' @ host @ ascii '':'' @ port"
    and once: "\<not> py_in (ascii ''http://'') (user @ ascii '':'' @ pw @ ascii ''@'' @ host @ ascii '':'' @ port)"
    and user: "58 \<notin> set user"
    and host: "58 \<notin> set host" "64 \<notin> set host"
    and port: "port \<noteq> []" "\<forall>c\<in>set port. is_digit c" "length port \<le> max_str_digits"
  shows "parse_proxy_url db url = Inr (host, int (digits_value port), Some user, Some pw)"
proof -
  define creds where "creds = user @ 58 # pw"
  define hp where "hp = host @ 58 # port"
  define u where "u = creds @ 64 # hp"
  have rest: "user @ ascii '':'' @ pw @ ascii ''@'' @ host @ ascii '':'' @ port = u"
    by (simp add: ascii_simps u_def creds_def hp_def)
  have strip: "py_replace url (ascii ''http://'') [] = u"
    using once unfolding form rest
    by (simp add: py_replace_prefix py_replace_absent ascii_def)
  have p58: "58 \<notin> set port" and p64: "64 \<notin> set port"
    using port(2) digit_not_sep by blast+
  have at: "py_in (ascii ''@'') u"
    by (simp add: ascii_simps py_in_single u_def)
  have "64 \<notin> set hp" using host(2) p64 by (simp add: hp_def)
  then have r: "py_rsplit1 u (ascii ''@'') = [creds, hp]"
    unfolding ascii_simps u_def by (rule py_rsplit1_last)
  have c: "py_split1 creds (ascii '':'') = [user, pw]"
    unfolding ascii_simps creds_def using user by (rule py_split1_first)
  have h: "py_split hp (ascii '':'') = [host, port]"
    unfolding ascii_simps hp_def using host(1) p58 by (rule py_split_once)
  show ?thesis
    unfolding parse_proxy_url_with_creds[OF strip at r]
    by (simp add: c h py_int_digits[OF port])
qed

theorem parse_proxy_url_http_form_witness:
  "parse_proxy_url ascii_db (ascii ''http://user:p:w@proxy.example:8080'')
     = Inr (ascii ''proxy.example'', 8080, Some (ascii ''user''), Some (ascii ''p:w''))"
  using parse_proxy_url_http_form[of "ascii ''http://user:p:w@proxy.example:8080''"
      "ascii ''user''" "ascii ''p:w''" "ascii ''proxy.example''" "ascii ''8080''" ascii_db]
  by (simp add: ascii_def is_digit_def max_str_digits_def digits_value_def)


text \<open>
  Claim C2 as stated (any scheme is stripped) fails: only the literal \<^verbatim>\<open>http://\<close>
  is removed, so for \<^verbatim>\<open>https://user:pw@host:8080\<close> the user is \<^verbatim>\<open>https\<close> and the
  password \<^verbatim>\<open>//user:pw\<close>.
\<close>

theorem parse_proxy_url_other_scheme:
  "parse_proxy_url ascii_db (ascii ''https://user:pw@host:8080'')
     = Inr (ascii ''host'', 8080, Some (ascii ''https''), Some (ascii ''//user:pw''))"
  by (simp add: parse_proxy_url_def ascii_def py_rsplit1_def py_int_def Let_def ascii_db_def
      to_ascii_digits_def is_py_space_def is_digit_def digits_value_def max_str_digits_def)




lemma main_no_url:
  "\<not> truthy u \<Longrightarrow> main db u lp b = (Sys_Exit 1, [Stderr_Print (ascii ''ERROR: HTTPS_PROXY or HTTP_PROXY not set'')])"
  by (auto simp: main_def truthy_def split: option.splits)

lemma main_bad_url:
  "u = Some url \<Longrightarrow> url \<noteq> [] \<Longrightarrow> parse_proxy_url db url = Inl e \<Longrightarrow> main db u lp b = (Uncaught e, [])"
  by (simp add: main_def)

text \<open>
  Claim C8. If no upstream proxy URL is configured (none of the four variables is set to
  a non-empty string), or \<open>parse_proxy_url\<close> raises on the configured URL (its
  host-port part lacks a port that \<^verbatim>\<open>int\<close> can read), the process writes to the
  error stream and nothing else happens: it ends with exit status 1, and no server socket
  is created, bound or listened on.
\<close>

theorem run_script_config_error:
  assumes "\<not> truthy (UPSTREAM_PROXY environ)
           \<or> (\<exists>url e. UPSTREAM_PROXY environ = Some url \<and> parse_proxy_url db url = Inl e)"
  shows "fst (run_script db environ bind_raises) = Exit_Status 1
         \<and> snd (run_script db environ bind_raises) \<noteq> []
         \<and> set (snd (run_script db environ bind_raises))
             \<subseteq> range Stderr_Print \<union> range Stderr_Traceback"
proof (cases "LISTEN_PORT db environ")
  case (Inl e)
  then show ?thesis by (simp add: run_script_def)
next
  case (Inr lp)
  show ?thesis
  proof (cases "truthy (UPSTREAM_PROXY environ)")
    case False
    then show ?thesis
      using Inr by (simp add: run_script_def main_no_url)
  next
    case True
    with assms obtain url e where u: "UPSTREAM_PROXY environ = Some url"
      and p: "parse_proxy_url db url = Inl e" by blast
    from True u have "url \<noteq> []" by (simp add: truthy_def)
    then show ?thesis
      using Inr u p by (simp add: run_script_def main_bad_url)
  qed
qed

theorem run_script_config_error_witness:
  "run_script ascii_db (\<lambda>k. None) None
     = (Exit_Status 1, [Stderr_Print (ascii ''ERROR: HTTPS_PROXY or HTTP_PROXY not set'')])
   \<and> run_script ascii_db (\<lambda>k. if k = ''HTTPS_PROXY'' then Some (ascii ''http://user:pw@proxy:http'') else None) None
     = (Exit_Status 1, [Stderr_Traceback ValueError])"
  using run_script_config_error[of "\<lambda>k. None" ascii_db None]
    run_script_config_error[of "\<lambda>k. if k = ''HTTPS_PROXY'' then Some (ascii ''http://user:pw@proxy:http'') else None" ascii_db None]
  by (simp add: run_script_def LISTEN_PORT_def UPSTREAM_PROXY_def py_or_def truthy_def main_def
      parse_proxy_url_def ascii_def py_rsplit1_def py_int_def Let_def ascii_db_def
      to_ascii_digits_def is_py_space_def is_digit_def digits_value_def max_str_digits_def)


section \<open>Receiving\<close>

lemma sock_recv_data:
  assumes "sock_recv n rs = (Rx_Got d, rs')" "0 < n"
  shows "length d \<le> n"
    and "d \<noteq> [] \<Longrightarrow> rx_bytes rs = d @ rx_bytes rs' \<and> rx_ends rs = rx_ends rs'"
    and "d = [] \<Longrightarrow> rx_bytes rs = [] \<and> rx_ends rs"
  using assms by (cases rs rule: rx_size.cases; auto split: if_splits)+

lemma sock_recv_raised:
  "sock_recv n rs = (Rx_Raised e, rs') \<Longrightarrow> rx_bytes rs = [] \<and> rx_ends rs"
  by (cases rs rule: rx_size.cases) (auto split: if_splits)

lemma sock_recv_blocks:
  "sock_recv n rs = (Rx_Blocks, rs') \<Longrightarrow> rx_bytes rs = [] \<and> \<not> rx_ends rs"
  by (cases rs rule: rx_size.cases) (auto split: if_splits)


section \<open>Sessions\<close>

lemma sock_recv_got:
  "sock_recv n rs = (Rx_Got d, rs') \<Longrightarrow> length d \<le> n"
  by (cases rs rule: rx_size.cases) (auto split: if_splits)

lemma recv_header_block_events:
  "recv_header_block s data rs = (r, ev) \<Longrightarrow> set ev \<subseteq> {Recv s 4096}"
  apply (induction s data rs arbitrary: r ev rule: recv_header_block.induct)
  apply (subst (asm) (2) recv_header_block.simps)
  apply (auto split: if_splits prod.splits recv_result.splits)
  apply blast
  done

lemma recv_header_block_complete:
  "recv_header_block s data rs = (Complete d, ev) \<Longrightarrow> py_in (crlf @ crlf) d"
  apply (induction s data rs arbitrary: ev rule: recv_header_block.induct)
  apply (subst (asm) (2) recv_header_block.simps)
  apply (auto split: if_splits prod.splits recv_result.splits)
  done

lemma recv_header_block_closed:
  "recv_header_block s data rs = (Peer_Closed d, ev) \<Longrightarrow> \<not> py_in (crlf @ crlf) d"
  apply (induction s data rs arbitrary: ev rule: recv_header_block.induct)
  apply (subst (asm) (2) recv_header_block.simps)
  apply (auto split: if_splits prod.splits recv_result.splits)
  done


lemma recv_header_block_eof:
  assumes "rs = map Data chunks @ Data [] # rest" "\<forall>c\<in>set chunks. c \<noteq> []"
    "\<not> py_in (crlf @ crlf) (data @ concat chunks)"
  shows "\<exists>ev. recv_header_block s data rs = (Peer_Closed (data @ concat chunks), ev)"
  using assms
proof (induction s data rs arbitrary: chunks rule: recv_header_block.induct)
  case (1 s data rs)
  have nd: "\<not> py_in (crlf @ crlf) data"
    using "1.prems"(3) py_in_append_left by blast
  show ?case
  proof (cases chunks)
    case Nil
    then show ?thesis
      using "1.prems" nd by (subst recv_header_block.simps) simp
  next
    case (Cons c cs)
    then have c: "c \<noteq> []" using "1.prems"(2) by simp
    show ?thesis
    proof (cases "length c \<le> 4096")
      case True
      then have sr: "sock_recv 4096 rs = (Rx_Got c, map Data cs @ Data [] # rest)"
        using "1.prems"(1) Cons by simp
      have "\<exists>ev. recv_header_block s (data @ c) (map Data cs @ Data [] # rest)
          = (Peer_Closed ((data @ c) @ concat cs), ev)"
        using "1.IH"[OF nd sr[symmetric] refl c refl] "1.prems"(2,3) Cons by simp
      then show ?thesis
        using nd sr c Cons by (subst recv_header_block.simps) auto
    next
      case False
      let ?rs' = "map Data (drop 4096 c # cs) @ Data [] # rest"
      have sr: "sock_recv 4096 rs = (Rx_Got (take 4096 c), ?rs')"
        using "1.prems"(1) Cons False by simp
      have t: "take 4096 c \<noteq> []" using c by simp
      have d: "drop 4096 c \<noteq> []" using False by simp
      have td: "take 4096 c @ drop 4096 c @ ys = c @ ys" for ys
        by (metis append_assoc append_take_drop_id)
      have "\<exists>ev. recv_header_block s (data @ take 4096 c) ?rs'
          = (Peer_Closed ((data @ take 4096 c) @ concat (drop 4096 c # cs)), ev)"
        using "1.IH"[OF nd sr[symmetric] refl t refl]
          "1.prems"(2,3) Cons d by (simp add: td)
      then show ?thesis
        using nd sr t Cons by (subst recv_header_block.simps) (auto simp: td)
    qed
  qed
qed


lemma recv_header_block_no_open:
  "recv_header_block s data rs = (r, ev) \<Longrightarrow> filter opens_upstream ev = []"
  by (drule recv_header_block_events) (auto simp: filter_empty_conv)

lemma check_tunnel_no_open: "check_tunnel resp = (r, ev) \<Longrightarrow> filter opens_upstream ev = []"
  by (auto simp: check_tunnel_def split: list.splits sum.splits if_splits)

lemma check_tunnel_not_blocks: "check_tunnel resp = (r, ev) \<Longrightarrow> r \<noteq> Blocks"
  by (auto simp: check_tunnel_def split: list.splits sum.splits if_splits)

lemma negotiate_no_open: "negotiate env = (r, ev) \<Longrightarrow> filter opens_upstream ev = []"
  by (auto simp: negotiate_def Let_def
      split: prod.splits read_result.splits option.splits
      dest: recv_header_block_no_open check_tunnel_no_open)

lemma send_upstream_no_open:
  "send_upstream db a env headers rest = (r, ev) \<Longrightarrow> filter opens_upstream ev = []"
  by (auto simp: send_upstream_def split: prod.splits sum.splits option.splits if_splits
      dest: negotiate_no_open)

lemma serve_request_open:
  assumes "serve_request db h p a env data = (r, bound, ev)"
  shows "(\<not> bound \<and> ev = [] \<and> (\<exists>e. r = Raises e))
       \<or> (bound \<and> (\<exists>ev'. ev = Socket_New # Set_Timeout 30 # Connect h p # ev'
                \<and> filter opens_upstream ev' = []))"
  using assms
  by (auto simp: serve_request_def split: prod.splits sum.splits option.splits
      dest: send_upstream_no_open)

lemma handle_client_unfold:
  "handle_client db h p a env =
     (case session_body db h p a env of
        (Blocks, bound, ev) \<Rightarrow> (Blocks, bound, ev)
      | (Raises e, bound, ev) \<Rightarrow>
          (Returns (), bound,
           ev @ Stderr (Relay_Error e) # Close Client # (if bound then [Close Upstream] else []))
      | (Returns u, bound, ev) \<Rightarrow>
          (Returns (), bound, ev @ Close Client # (if bound then [Close Upstream] else [])))"
  by (auto simp: handle_client_def finally_clause_def except_clause_def close_upstream_def
      split: prod.splits outcome.splits)


lemma session_body_cases:
  assumes "session_body db h p a env = (r, bound, ev)"
    and "recv_header_block Client [] (client_rx env) = (rr, ev0)"
  shows "(rr = Read_Blocked \<and> r = Blocks \<and> \<not> bound \<and> ev = ev0)
       \<or> (\<exists>e. rr = Read_Raised e \<and> r = Raises e \<and> \<not> bound \<and> ev = ev0)
       \<or> (\<exists>d. rr = Peer_Closed d \<and> r = Returns () \<and> \<not> bound \<and> ev = ev0 @ [Close Client])
       \<or> (\<exists>data ev1. rr = Complete data \<and> serve_request db h p a env data = (r, bound, ev1)
             \<and> ev = ev0 @ ev1)"
  using assms by (auto simp: session_body_def split: prod.splits read_result.splits)

lemma session_body_opens:
  assumes "session_body db h p a env = (r, bound, ev)"
  shows "(\<not> bound \<and> filter opens_upstream ev = [])
       \<or> (bound \<and> filter opens_upstream ev = [Socket_New, Connect h p]
            \<and> (\<exists>data ev0 ev'. recv_header_block Client [] (client_rx env) = (Complete data, ev0)
                  \<and> ev = ev0 @ Socket_New # ev'))"
proof -
  obtain rr ev0 where rb: "recv_header_block Client [] (client_rx env) = (rr, ev0)"
    by (cases "recv_header_block Client [] (client_rx env)")
  have n0: "filter opens_upstream ev0 = []" by (rule recv_header_block_no_open[OF rb])
  from session_body_cases[OF assms rb] show ?thesis
  proof (elim disjE exE conjE)
    fix data ev1
    assume c: "rr = Complete data" "serve_request db h p a env data = (r, bound, ev1)"
      "ev = ev0 @ ev1"
    from serve_request_open[OF c(2)] show ?thesis
      using n0 rb c(1,3) by auto
  qed (use n0 in auto)
qed

lemma handle_client_trace:
  assumes "handle_client db h p a env = (r, bound, tr)"
  obtains ev where "session_body db h p a env = (Blocks, bound, ev)" "r = Blocks" "tr = ev"
  | ev e where "session_body db h p a env = (Raises e, bound, ev)" "r = Returns ()"
      "tr = ev @ Stderr (Relay_Error e) # Close Client # (if bound then [Close Upstream] else [])"
  | ev where "session_body db h p a env = (Returns (), bound, ev)" "r = Returns ()"
      "tr = ev @ Close Client # (if bound then [Close Upstream] else [])"
  using assms unfolding handle_client_unfold
  by (auto split: prod.splits outcome.splits if_splits)

lemma handle_client_served:
  assumes "recv_header_block Client [] (client_rx env) = (Complete data, ev0)"
    and "split_header data = Inr (headers, rest)"
    and "upstream_new env = None" "upstream_connect env = None"
    and "send_upstream db a env headers rest = (r1, ev1)"
  shows "handle_client db h p a env =
     (case r1 of
        Blocks \<Rightarrow> (Blocks, True, ev0 @ [Socket_New, Set_Timeout 30, Connect h p] @ ev1)
      | Raises e \<Rightarrow>
          (Returns (), True,
           ev0 @ [Socket_New, Set_Timeout 30, Connect h p] @ ev1
           @ [Stderr (Relay_Error e), Close Client, Close Upstream])
      | Returns u \<Rightarrow>
          (Returns (), True,
           ev0 @ [Socket_New, Set_Timeout 30, Connect h p] @ ev1
           @ [Close Client, Close Upstream]))"
  using assms
  by (simp add: handle_client_unfold session_body_def serve_request_def split: outcome.splits)

lemma send_upstream_connect:
  assumes "rewrite_request db a headers = Inr (request_line, new_headers)"
    and "utf8_encode new_headers = Inr enc" "upstream_tx env = None"
    and "is_connect db request_line" "negotiate env = (r2, ev2)"
  shows "send_upstream db a env headers rest = (r2, Send_All Upstream (enc @ rest) # ev2)"
  using assms by (simp add: send_upstream_def)

lemma negotiate_read:
  assumes "recv_header_block Upstream [] (upstream_rx env) = (rr, ev)"
    and "rr = Complete resp \<or> rr = Peer_Closed resp"
  shows "negotiate env =
     (case client_tx env of
        Some e \<Rightarrow> (Raises e, ev @ [Send_All Client resp])
      | None \<Rightarrow> (fst (check_tunnel resp), ev @ Send_All Client resp # snd (check_tunnel resp)))"
  using assms by (auto simp: negotiate_def split: option.splits prod.splits)

lemma check_tunnel_events:
  "check_tunnel resp = (r, ev) \<Longrightarrow> \<forall>d. Send_All Client d \<notin> set ev"
  by (auto simp: check_tunnel_def split: list.splits sum.splits if_splits)

lemma connect_session:
  assumes framed: "recv_header_block Client [] (client_rx env) = (Complete data, ev0)"
    and split: "split_header data = Inr (headers, rest)"
    and rewr: "rewrite_request db a headers = Inr (request_line, new_headers)"
    and conn: "is_connect db request_line"
    and enc: "utf8_encode new_headers = Inr enc"
    and up: "upstream_new env = None" "upstream_connect env = None" "upstream_tx env = None"
    and resp: "recv_header_block Upstream [] (upstream_rx env) = (rr, ev2)"
      "rr = Complete resp \<or> rr = Peer_Closed resp"
  shows "handle_client db h p a env =
     (Returns (), True,
      ev0 @ [Socket_New, Set_Timeout 30, Connect h p, Send_All Upstream (enc @ rest)] @ ev2
      @ Send_All Client resp #
      (case client_tx env of
         Some e \<Rightarrow> [Stderr (Relay_Error e)]
       | None \<Rightarrow>
           (case check_tunnel resp of
              (Raises e, ev3) \<Rightarrow> ev3 @ [Stderr (Relay_Error e)]
            | (_, ev3) \<Rightarrow> ev3))
      @ [Close Client, Close Upstream])"
proof -
  obtain r3 ev3 where ct: "check_tunnel resp = (r3, ev3)" by (cases "check_tunnel resp")
  have nb: "r3 \<noteq> Blocks" by (rule check_tunnel_not_blocks[OF ct])
  obtain r2 evn where ng: "negotiate env = (r2, evn)" by (cases "negotiate env")
  have ng': "(r2, evn) = (case client_tx env of
        Some e \<Rightarrow> (Raises e, ev2 @ [Send_All Client resp])
      | None \<Rightarrow> (r3, ev2 @ Send_All Client resp # ev3))"
    using negotiate_read[OF resp] ng ct by (simp split: option.splits)
  show ?thesis
    unfolding handle_client_served[OF framed split up(1,2)
        send_upstream_connect[OF rewr enc up(3) conn ng]]
    using nb ng' by (auto simp: ct split: option.splits outcome.splits)
qed


lemma recv_header_block_single:
  "d \<noteq> [] \<Longrightarrow> length d \<le> 4096 \<Longrightarrow> py_in (crlf @ crlf) d
   \<Longrightarrow> recv_header_block s [] [Data d] = (Complete d, [Recv s 4096])"
  by (simp add: recv_header_block.simps[of s "[]"] recv_header_block.simps[of s d] crlf_def)


section \<open>Evaluation on ASCII data\<close>

lemma utf8_scan_ascii: "\<forall>b\<in>set bs. b < 128 \<Longrightarrow> utf8_scan bs = map Some bs"
  by (induction bs) auto

lemma those_map_Some: "those (map Some xs) = Some xs"
  by (induction xs) auto

lemma utf8_decode_replace_ascii:
  "\<forall>c\<in>set bs. of_char c < (128::nat) \<Longrightarrow> utf8_decode_replace bs = ascii bs"
  by (simp add: utf8_decode_replace_def utf8_scan_ascii ascii_def)

lemma utf8_decode_ascii:
  "\<forall>c\<in>set bs. of_char c < (128::nat) \<Longrightarrow> utf8_decode bs = Inr (ascii bs)"
proof -
  assume "\<forall>c\<in>set bs. of_char c < (128::nat)"
  then have "utf8_scan (map of_char bs) = map Some (map of_char bs)"
    by (intro utf8_scan_ascii) simp
  then show ?thesis
    by (simp only: utf8_decode_def those_map_Some ascii_def) simp
qed

lemma utf8_encode_ascii: "\<forall>c\<in>set s. c < 128 \<Longrightarrow> utf8_encode s = Inr (map char_of s)"
  by (induction s) (auto simp: utf8_encode_cp_def)

lemma utf8_encode_ascii_bytes:
  "\<forall>c\<in>set bs. of_char c < (128::nat) \<Longrightarrow> utf8_encode (ascii bs) = Inr bs"
  by (simp add: utf8_encode_ascii ascii_def comp_def)

lemma split_header_at:
  assumes "\<not> py_in (crlf @ crlf) (hdr @ butlast (crlf @ crlf))"
  shows "split_header (hdr @ crlf @ crlf @ rest) = Inr (utf8_decode_replace hdr, rest)"
proof -
  have "py_find (hdr @ (crlf @ crlf) @ rest) (crlf @ crlf) = Some (length hdr)"
    by (rule py_find_first[OF _ assms]) (simp add: crlf_def)
  then show ?thesis by (simp add: split_header_def py_index_def crlf_def)
qed


section \<open>The scenarios, evaluated\<close>

lemma check_tunnel_cases:
  assumes "py_split resp crlf = first # others"
  shows "check_tunnel resp =
     (case utf8_decode first of
        Inl e \<Rightarrow> (Raises e, [])
      | Inr l \<Rightarrow>
          if tunnel_established l
          then (Returns (),
                [Thread_Start Client Upstream, Thread_Start Upstream Client,
                 Thread_Join Client Upstream 300, Thread_Join Upstream Client 300])
          else (Returns (), [Stderr (Connect_Failed l)]))"
  using assms by (simp add: check_tunnel_def)

lemma connect_request_ascii: "\<forall>c\<in>set connect_request. of_char c < (128::nat)"
  by (simp add: connect_request_def crlf_def)

lemma scenario_framed:
  "recv_header_block Client [] (client_rx (scenario resp))
     = (Complete (connect_request @ crlf @ crlf), [Recv Client 4096])"
  unfolding scenario_def session_env.simps
  by (rule recv_header_block_single) (simp_all add: py_in_mid connect_request_def crlf_def)

lemma scenario_split:
  "split_header (connect_request @ crlf @ crlf) = Inr (ascii connect_request, [])"
  using split_header_at[of connect_request "[]"]
  by (simp add: utf8_decode_replace_ascii[OF connect_request_ascii])
    (simp add: connect_request_def crlf_def)

lemma scenario_rewrite:
  "rewrite_request ascii_db [] (ascii connect_request)
     = Inr (ascii ''CONNECT example.com:443 HTTP/1.1'', ascii (connect_request @ crlf @ crlf))"
  by (simp add: rewrite_request_def connect_request_def crlf_def ascii_def
      is_proxy_authorization_def py_lower_def)

lemma scenario_is_connect: "is_connect ascii_db (ascii ''CONNECT example.com:443 HTTP/1.1'')"
  by (simp add: is_connect_def py_upper_def ascii_def)

lemma scenario_encode:
  "utf8_encode (ascii (connect_request @ crlf @ crlf)) = Inr (connect_request @ crlf @ crlf)"
  by (rule utf8_encode_ascii_bytes) (simp add: connect_request_def crlf_def)

lemma scenario_response:
  "line \<noteq> [] \<Longrightarrow> length line \<le> 4092
   \<Longrightarrow> recv_header_block Upstream [] (upstream_rx (scenario (line @ crlf @ crlf)))
       = (Complete (line @ crlf @ crlf), [Recv Upstream 4096])"
  unfolding scenario_def session_env.simps
  using py_in_mid[of "crlf @ crlf" line "[]"]
  by (intro recv_header_block_single) (simp_all add: crlf_def)

lemma scenario_session:
  assumes "line \<noteq> []" "length line \<le> 4092"
  shows "handle_client ascii_db h p [] (scenario (line @ crlf @ crlf)) =
     (Returns (), True,
      [Recv Client 4096, Socket_New, Set_Timeout 30, Connect h p,
       Send_All Upstream (connect_request @ crlf @ crlf), Recv Upstream 4096,
       Send_All Client (line @ crlf @ crlf)]
      @ (case check_tunnel (line @ crlf @ crlf) of
           (Raises e, ev3) \<Rightarrow> ev3 @ [Stderr (Relay_Error e)]
         | (_, ev3) \<Rightarrow> ev3)
      @ [Close Client, Close Upstream])"
  using connect_session[OF scenario_framed scenario_split scenario_rewrite scenario_is_connect
      scenario_encode _ _ _ scenario_response[OF assms] disjI1[OF refl], of h p]
  by (simp add: scenario_def)

lemma check_tunnel_204:
  "check_tunnel (''HTTP/1.1 204 No Content'' @ crlf @ crlf)
     = (Returns (), [Stderr (Connect_Failed (ascii ''HTTP/1.1 204 No Content''))])"
proof -
  have s: "py_split (''HTTP/1.1 204 No Content'' @ crlf @ crlf) crlf = [''HTTP/1.1 204 No Content'', [], []]"
    by (simp add: crlf_def)
  have d: "utf8_decode ''HTTP/1.1 204 No Content'' = Inr (ascii ''HTTP/1.1 204 No Content'')"
    by (rule utf8_decode_ascii) simp
  have n: "\<not> tunnel_established (ascii ''HTTP/1.1 204 No Content'')"
    by (simp add: tunnel_established_def ascii_def)
  show ?thesis unfolding check_tunnel_def s by (simp add: d n)
qed

lemma status_line_split:
  "py_split (''HTTP/1.1 200 Connection Established'' @ crlf @ crlf) crlf
     = ''HTTP/1.1 200 Connection Established'' # [[], []]"
  "py_split (''HTTP/1.1 407 Proxy Authentication Required'' @ crlf @ crlf) crlf
     = ''HTTP/1.1 407 Proxy Authentication Required'' # [[], []]"
  by (simp_all add: crlf_def)

lemma status_line_decode:
  "utf8_decode ''HTTP/1.1 200 Connection Established''
     = Inr (ascii ''HTTP/1.1'' @ ascii '' 200 '' @ ascii ''Connection Established'')"
  "utf8_decode ''HTTP/1.1 407 Proxy Authentication Required''
     = Inr (ascii ''HTTP/1.1 407 Proxy Authentication Required'')"
  by (simp_all add: utf8_decode_ascii) (simp add: ascii_def)

lemma status_407_no_200:
  "\<not> py_in (ascii '' 200 '') (ascii ''HTTP/1.1 407 Proxy Authentication Required'')"
  by (simp add: ascii_def)


lemma early_close_session:
  "handle_client db h p a \<lparr>client_rx = [Data ''GET / HT'', Data []], upstream_new = None,
      upstream_connect = None, upstream_tx = None, upstream_rx = [], client_tx = None\<rparr>
     = (Returns (), False, [Recv Client 4096, Recv Client 4096, Close Client, Close Client])"
  by (simp add: handle_client_unfold session_body_def recv_header_block.simps[of Client]
      crlf_def)


section \<open>When a session does not return\<close>








section \<open>Tunnel Negotiator\<close>

text \<open>
  Claim C1, as amended. Take a session whose request was framed, rewritten into a
  \<^verbatim>\<open>CONNECT\<close> request and sent upstream without an exception, whose response loop
  ended with the bytes \<open>resp\<close> (a complete header block, or what had arrived when the
  upstream closed), and whose forwarding of \<open>resp\<close> to the client did not raise; let
  \<open>first\<close> be the first line of \<open>resp\<close>. If \<open>first\<close> decodes to a status line
  \<^verbatim>\<open>version 200 reason\<close> (status code 200 followed by a blank; \<open>version\<close> without a
  blank), both relay threads are started and joined, and then both sockets are closed.
  If \<open>first\<close> cannot be decoded or its text does not contain \<^verbatim>\<open>" 200 "\<close> (every
  status code other than 200 whose line has no \<^verbatim>\<open>" 200 "\<close> elsewhere, 2xx codes such
  as 204 included), one line is written to the error stream, no relay thread is started,
  and both sockets are closed. In both cases the calls before the decision are
  \<^verbatim>\<open>recv\<close> calls, the opening of the upstream socket and the two \<^verbatim>\<open>sendall\<close> calls.
\<close>

theorem tunnel_decision:
  assumes framed: "recv_header_block Client [] (client_rx env) = (Complete data, ev0)"
    and split: "split_header data = Inr (headers, rest)"
    and rewr: "rewrite_request db auth_header headers = Inr (request_line, new_headers)"
    and conn: "is_connect db request_line"
    and enc: "utf8_encode new_headers = Inr encoded"
    and up: "upstream_new env = None" "upstream_connect env = None" "upstream_tx env = None"
    and resp: "recv_header_block Upstream [] (upstream_rx env) = (rr, ev2)"
      "rr = Complete resp \<or> rr = Peer_Closed resp"
    and sent: "client_tx env = None"
    and line: "py_split resp crlf = first # others"
  shows "(utf8_decode first = Inr (version @ ascii '' 200 '' @ reason) \<and> 32 \<notin> set version
          \<longrightarrow> handle_client db upstream_host upstream_port auth_header env =
               (Returns (), True,
                ev0 @ [Socket_New, Set_Timeout 30, Connect upstream_host upstream_port,
                       Send_All Upstream (encoded @ rest)] @ ev2
                @ [Send_All Client resp,
                   Thread_Start Client Upstream, Thread_Start Upstream Client,
                   Thread_Join Client Upstream 300, Thread_Join Upstream Client 300,
                   Close Client, Close Upstream]))
       \<and> ((\<forall>l. utf8_decode first = Inr l \<longrightarrow> \<not> py_in (ascii '' 200 '') l)
          \<longrightarrow> (\<exists>m. handle_client db upstream_host upstream_port auth_header env =
               (Returns (), True,
                ev0 @ [Socket_New, Set_Timeout 30, Connect upstream_host upstream_port,
                       Send_All Upstream (encoded @ rest)] @ ev2
                @ [Send_All Client resp, Stderr m, Close Client, Close Upstream])))
       \<and> set ev0 \<subseteq> {Recv Client 4096} \<and> set ev2 \<subseteq> {Recv Upstream 4096}"
proof (intro conjI impI)
  note hc = connect_session[OF framed split rewr conn enc up resp,
      of upstream_host upstream_port, unfolded sent option.case check_tunnel_cases[OF line]]
  {
    assume "utf8_decode first = Inr (version @ ascii '' 200 '' @ reason) \<and> 32 \<notin> set version"
    then have d: "utf8_decode first = Inr (version @ ascii '' 200 '' @ reason)" by simp
    have "tunnel_established (version @ ascii '' 200 '' @ reason)"
      unfolding tunnel_established_def by (rule py_in_mid)
    then show "handle_client db upstream_host upstream_port auth_header env =
               (Returns (), True,
                ev0 @ [Socket_New, Set_Timeout 30, Connect upstream_host upstream_port,
                       Send_All Upstream (encoded @ rest)] @ ev2
                @ [Send_All Client resp,
                   Thread_Start Client Upstream, Thread_Start Upstream Client,
                   Thread_Join Client Upstream 300, Thread_Join Upstream Client 300,
                   Close Client, Close Upstream])"
      unfolding hc d by simp
  }
  {
    assume n: "\<forall>l. utf8_decode first = Inr l \<longrightarrow> \<not> py_in (ascii '' 200 '') l"
    show "\<exists>m. handle_client db upstream_host upstream_port auth_header env =
               (Returns (), True,
                ev0 @ [Socket_New, Set_Timeout 30, Connect upstream_host upstream_port,
                       Send_All Upstream (encoded @ rest)] @ ev2
                @ [Send_All Client resp, Stderr m, Close Client, Close Upstream])"
    proof (cases "utf8_decode first")
      case (Inl e)
      show ?thesis unfolding hc Inl by simp
    next
      case (Inr l)
      then have "\<not> tunnel_established l" using n by (simp add: tunnel_established_def)
      then show ?thesis unfolding hc Inr by simp
    qed
  }
  show "set ev0 \<subseteq> {Recv Client 4096}" by (rule recv_header_block_events[OF framed])
  show "set ev2 \<subseteq> {Recv Upstream 4096}" by (rule recv_header_block_events[OF resp(1)])
qed

theorem tunnel_decision_witness:
  "handle_client ascii_db (ascii ''proxy'') 3128 []
     (scenario (''HTTP/1.1 200 Connection Established'' @ crlf @ crlf)) =
     (Returns (), True,
      [Recv Client 4096, Socket_New, Set_Timeout 30, Connect (ascii ''proxy'') 3128,
       Send_All Upstream (connect_request @ crlf @ crlf), Recv Upstream 4096,
       Send_All Client (''HTTP/1.1 200 Connection Established'' @ crlf @ crlf),
       Thread_Start Client Upstream, Thread_Start Upstream Client,
       Thread_Join Client Upstream 300, Thread_Join Upstream Client 300,
       Close Client, Close Upstream])
   \<and> (\<exists>m. handle_client ascii_db (ascii ''proxy'') 3128 []
     (scenario (''HTTP/1.1 407 Proxy Authentication Required'' @ crlf @ crlf)) =
     (Returns (), True,
      [Recv Client 4096, Socket_New, Set_Timeout 30, Connect (ascii ''proxy'') 3128,
       Send_All Upstream (connect_request @ crlf @ crlf), Recv Upstream 4096,
       Send_All Client (''HTTP/1.1 407 Proxy Authentication Required'' @ crlf @ crlf),
       Stderr m, Close Client, Close Upstream]))"
proof -
  have up: "upstream_new (scenario r) = None" "upstream_connect (scenario r) = None"
    "upstream_tx (scenario r) = None" "client_tx (scenario r) = None" for r
    by (simp_all add: scenario_def)
  have l2: "''HTTP/1.1 200 Connection Established'' \<noteq> []"
    "length ''HTTP/1.1 200 Connection Established'' \<le> 4092" by simp_all
  have l4: "''HTTP/1.1 407 Proxy Authentication Required'' \<noteq> []"
    "length ''HTTP/1.1 407 Proxy Authentication Required'' \<le> 4092" by simp_all
  have v: "32 \<notin> set (ascii ''HTTP/1.1'')" by (simp add: ascii_def)
  have n: "\<forall>l. utf8_decode ''HTTP/1.1 407 Proxy Authentication Required'' = Inr l
      \<longrightarrow> \<not> py_in (ascii '' 200 '') l"
    using status_407_no_200 by (simp add: status_line_decode(2))
  from tunnel_decision[OF scenario_framed scenario_split scenario_rewrite scenario_is_connect
      scenario_encode up(1,2,3) scenario_response[OF l2] disjI1[OF refl] up(4)
      status_line_split(1),
      of "ascii ''HTTP/1.1''" "ascii ''Connection Established''" "ascii ''proxy''" 3128]
    tunnel_decision[OF scenario_framed scenario_split scenario_rewrite scenario_is_connect
      scenario_encode up(1,2,3) scenario_response[OF l4] disjI1[OF refl] up(4)
      status_line_split(2),
      of "ascii ''HTTP/1.1''" "ascii ''Connection Established''" "ascii ''proxy''" 3128]
  show ?thesis
    using v n status_line_decode(1) by simp
qed

text \<open>
  Claim C1 as stated (every status code from 200 to 299 establishes the tunnel) fails:
  the code looks for the text \<^verbatim>\<open>" 200 "\<close>. For the response
  \<^verbatim>\<open>HTTP/1.1 204 No Content\<close> the failure is reported and no relay thread is started.
\<close>

theorem success_204_not_relayed:
  "handle_client ascii_db (ascii ''proxy'') 3128 [] (scenario (''HTTP/1.1 204 No Content'' @ crlf @ crlf)) =
     (Returns (), True,
      [Recv Client 4096, Socket_New, Set_Timeout 30, Connect (ascii ''proxy'') 3128,
       Send_All Upstream (connect_request @ crlf @ crlf), Recv Upstream 4096,
       Send_All Client (''HTTP/1.1 204 No Content'' @ crlf @ crlf),
       Stderr (Connect_Failed (ascii ''HTTP/1.1 204 No Content'')),
       Close Client, Close Upstream])"
proof -
  have l: "''HTTP/1.1 204 No Content'' \<noteq> []" "length ''HTTP/1.1 204 No Content'' \<le> 4092"
    by simp_all
  show ?thesis
    unfolding scenario_session[OF l] check_tunnel_204 by simp
qed


section \<open>Teardown\<close>




text \<open>
  Claim C5. If the client sends some non-empty pieces of data that together do not contain
  \<^verbatim>\<open>\r\n\r\n\<close> and then closes, the handler returns after \<^verbatim>\<open>recv\<close> calls on the
  client socket followed by nothing but the close of the client socket (by the early
  return, and again by the \<^verbatim>\<open>finally\<close> clause); the upstream socket is never
  created. On every connection the upstream socket is created and connected at most once
  (to the configured target), and only after the reading loop has ended with data that
  contains \<^verbatim>\<open>\r\n\r\n\<close>, all \<^verbatim>\<open>recv\<close> calls of that loop coming first.
\<close>

theorem incomplete_request_no_upstream:
  assumes "handle_client db upstream_host upstream_port auth_header env = (r, bound, tr)"
  shows "(client_rx env = map Data chunks @ Data [] # rest \<and> (\<forall>c\<in>set chunks. c \<noteq> [])
            \<and> \<not> py_in (crlf @ crlf) (concat chunks)
          \<longrightarrow> r = Returns () \<and> \<not> bound
              \<and> (\<exists>ev. tr = ev @ [Close Client, Close Client] \<and> set ev \<subseteq> {Recv Client 4096}))
       \<and> (filter opens_upstream tr = []
            \<or> filter opens_upstream tr = [Socket_New, Connect upstream_host upstream_port]
              \<and> (\<exists>data ev0 tr'.
                    recv_header_block Client [] (client_rx env) = (Complete data, ev0)
                    \<and> py_in (crlf @ crlf) data \<and> tr = ev0 @ Socket_New # tr'))"
proof (intro conjI impI)
  assume a: "client_rx env = map Data chunks @ Data [] # rest \<and> (\<forall>c\<in>set chunks. c \<noteq> [])
            \<and> \<not> py_in (crlf @ crlf) (concat chunks)"
  then obtain ev where ev: "recv_header_block Client [] (client_rx env)
      = (Peer_Closed ([] @ concat chunks), ev)"
    using recv_header_block_eof[of "client_rx env" chunks rest "[]" Client] by auto
  have "set ev \<subseteq> {Recv Client 4096}" by (rule recv_header_block_events[OF ev])
  moreover have "handle_client db upstream_host upstream_port auth_header env
      = (Returns (), False, ev @ [Close Client, Close Client])"
    using ev by (simp add: handle_client_unfold session_body_def)
  ultimately show "r = Returns ()" "\<not> bound"
    "\<exists>ev. tr = ev @ [Close Client, Close Client] \<and> set ev \<subseteq> {Recv Client 4096}"
    using assms by auto
next
  have cl: "filter opens_upstream (ev @ Close Client # (if b then [Close Upstream] else [])) 
      = filter opens_upstream ev" for ev b by simp
  have cl2: "filter opens_upstream (ev @ Stderr m # Close Client # (if b then [Close Upstream] else [])) 
      = filter opens_upstream ev" for ev b m by simp
  have main: "filter opens_upstream tr = []
            \<or> filter opens_upstream tr = [Socket_New, Connect upstream_host upstream_port]
              \<and> (\<exists>data ev0 tr'.
                    recv_header_block Client [] (client_rx env) = (Complete data, ev0)
                    \<and> tr = ev0 @ Socket_New # tr')"
    if sb: "session_body db upstream_host upstream_port auth_header env = (r', bound, ev)"
      and tr: "tr = ev @ post" "filter opens_upstream tr = filter opens_upstream ev" for r' ev post
    using session_body_opens[OF sb] tr by auto
  from assms have "filter opens_upstream tr = []
            \<or> filter opens_upstream tr = [Socket_New, Connect upstream_host upstream_port]
              \<and> (\<exists>data ev0 tr'.
                    recv_header_block Client [] (client_rx env) = (Complete data, ev0)
                    \<and> tr = ev0 @ Socket_New # tr')"
  proof (cases rule: handle_client_trace)
    case (1 ev)
    then show ?thesis using main[OF 1(1), of "[]"] by simp
  next
    case (2 ev e)
    show ?thesis by (rule main[OF 2(1) 2(3)]) (simp add: 2(3))
  next
    case (3 ev)
    show ?thesis by (rule main[OF 3(1) 3(3)]) (simp add: 3(3))
  qed
  then show "filter opens_upstream tr = []
            \<or> filter opens_upstream tr = [Socket_New, Connect upstream_host upstream_port]
              \<and> (\<exists>data ev0 tr'.
                    recv_header_block Client [] (client_rx env) = (Complete data, ev0)
                    \<and> py_in (crlf @ crlf) data \<and> tr = ev0 @ Socket_New # tr')"
    using recv_header_block_complete by blast
qed

theorem incomplete_request_no_upstream_witness:
  "\<exists>ev. [Recv Client 4096, Recv Client 4096, Close Client, Close Client]
        = ev @ [Close Client, Close Client] \<and> set ev \<subseteq> {Recv Client 4096}"
  using incomplete_request_no_upstream[OF early_close_session, of "[''GET / HT'']" "[]"]
  by (simp add: crlf_def)


text \<open>
  Claim C4. In every session whose request was framed, rewritten into a \<^verbatim>\<open>CONNECT\<close>
  request and sent upstream without an exception, and whose response loop ended with the
  bytes \<open>resp\<close> (a complete header block, or a partial one when the upstream closed
  first), \<open>resp\<close> is passed unchanged to \<^verbatim>\<open>client_sock.sendall\<close> exactly once:
  the calls before it are \<^verbatim>\<open>recv\<close> calls, the opening of the upstream socket and
  the sending of the request, so it precedes the decision on success or failure and
  whatever that decision causes, and no later call sends anything to the client.
\<close>

theorem response_forwarded_once:
  assumes framed: "recv_header_block Client [] (client_rx env) = (Complete data, ev0)"
    and split: "split_header data = Inr (headers, rest)"
    and rewr: "rewrite_request db auth_header headers = Inr (request_line, new_headers)"
    and conn: "is_connect db request_line"
    and enc: "utf8_encode new_headers = Inr encoded"
    and up: "upstream_new env = None" "upstream_connect env = None" "upstream_tx env = None"
    and resp: "recv_header_block Upstream [] (upstream_rx env) = (rr, ev2)"
      "rr = Complete resp \<or> rr = Peer_Closed resp"
  shows "\<exists>post. handle_client db upstream_host upstream_port auth_header env =
           (Returns (), True,
            ev0 @ [Socket_New, Set_Timeout 30, Connect upstream_host upstream_port,
                   Send_All Upstream (encoded @ rest)] @ ev2
            @ Send_All Client resp # post)
          \<and> (\<forall>d. Send_All Client d \<notin> set post)
          \<and> set ev0 \<subseteq> {Recv Client 4096} \<and> set ev2 \<subseteq> {Recv Upstream 4096}"
proof -
  obtain r3 ev3 where ct: "check_tunnel resp = (r3, ev3)" by (cases "check_tunnel resp")
  note ns = check_tunnel_events[OF ct]
  let ?post = "(case client_tx env of
         Some e \<Rightarrow> [Stderr (Relay_Error e)]
       | None \<Rightarrow>
           (case check_tunnel resp of
              (Raises e, ev3) \<Rightarrow> ev3 @ [Stderr (Relay_Error e)]
            | (_, ev3) \<Rightarrow> ev3))
      @ [Close Client, Close Upstream]"
  have "\<forall>d. Send_All Client d \<notin> set ?post"
    using ns by (auto simp: ct split: option.splits outcome.splits)
  moreover have "handle_client db upstream_host upstream_port auth_header env =
           (Returns (), True,
            ev0 @ [Socket_New, Set_Timeout 30, Connect upstream_host upstream_port,
                   Send_All Upstream (encoded @ rest)] @ ev2
            @ Send_All Client resp # ?post)"
    by (rule connect_session[OF framed split rewr conn enc up resp])
  ultimately show ?thesis
    using recv_header_block_events[OF framed] recv_header_block_events[OF resp(1)]
    by blast
qed

theorem response_forwarded_once_witness:
  "\<exists>post. handle_client ascii_db (ascii ''proxy'') 3128 []
       (scenario (''HTTP/1.1 407 Proxy Authentication Required'' @ crlf @ crlf)) =
     (Returns (), True,
      [Recv Client 4096] @ [Socket_New, Set_Timeout 30, Connect (ascii ''proxy'') 3128,
       Send_All Upstream ((connect_request @ crlf @ crlf) @ [])] @ [Recv Upstream 4096]
      @ Send_All Client (''HTTP/1.1 407 Proxy Authentication Required'' @ crlf @ crlf) # post)
     \<and> (\<forall>d. Send_All Client d \<notin> set post)"
proof -
  have up: "upstream_new (scenario r) = None" "upstream_connect (scenario r) = None"
    "upstream_tx (scenario r) = None" for r
    by (simp_all add: scenario_def)
  have l4: "''HTTP/1.1 407 Proxy Authentication Required'' \<noteq> []"
    "length ''HTTP/1.1 407 Proxy Authentication Required'' \<le> 4092" by simp_all
  from response_forwarded_once[OF scenario_framed scenario_split scenario_rewrite
      scenario_is_connect scenario_encode up scenario_response[OF l4] disjI1[OF refl],
      of "ascii ''proxy''" 3128]
  show ?thesis by blast
qed


section \<open>Bidirectional Relay\<close>

lemma relay_loop_shape:
  assumes "relay_loop src dst rs ts = (r, ev)"
  shows "\<exists>ds tail. ev = concat (map (\<lambda>d. [Recv src 65536, Send_All dst d]) ds) @ tail
      \<and> (\<forall>d\<in>set ds. d \<noteq> [] \<and> length d \<le> 65536)
      \<and> prefix (concat ds) (rx_bytes rs)
      \<and> ((r \<noteq> Blocks \<and> tail = [Recv src 65536] \<and> concat ds = rx_bytes rs \<and> rx_ends rs)
         \<or> ((\<exists>e. r = Raises e \<and> ts ! (length ds - 1) = Some e) \<and> tail = [] \<and> ds \<noteq> []
              \<and> length ds \<le> length ts)
         \<or> (r = Blocks \<and> tail = [Recv src 65536] \<and> concat ds = rx_bytes rs \<and> \<not> rx_ends rs))
      \<and> (\<forall>t\<in>set (take (if tail = [] then length ds - 1 else length ds) ts). t = None)"
  using assms
proof (induction src dst rs ts arbitrary: r ev rule: relay_loop.induct)
  case (1 src dst rs ts)
  obtain x rs' where sr: "sock_recv 65536 rs = (x, rs')" by (cases "sock_recv 65536 rs")
  let ?P = "\<lambda>ds tail. ev = concat (map (\<lambda>d. [Recv src 65536, Send_All dst d]) ds) @ tail
      \<and> (\<forall>d\<in>set ds. d \<noteq> [] \<and> length d \<le> 65536)
      \<and> prefix (concat ds) (rx_bytes rs)
      \<and> ((r \<noteq> Blocks \<and> tail = [Recv src 65536] \<and> concat ds = rx_bytes rs \<and> rx_ends rs)
         \<or> ((\<exists>e. r = Raises e \<and> ts ! (length ds - 1) = Some e) \<and> tail = [] \<and> ds \<noteq> []
              \<and> length ds \<le> length ts)
         \<or> (r = Blocks \<and> tail = [Recv src 65536] \<and> concat ds = rx_bytes rs \<and> \<not> rx_ends rs))
      \<and> (\<forall>t\<in>set (take (if tail = [] then length ds - 1 else length ds) ts). t = None)"
  show ?case
  proof (cases x)
    case Rx_Blocks
    then have "r = Blocks" "ev = [Recv src 65536]"
      using "1.prems" sr by (simp_all add: relay_loop.simps[of src dst rs])
    then have "?P [] [Recv src 65536]"
      using sock_recv_blocks[OF sr[unfolded Rx_Blocks]] by simp
    then show ?thesis by (intro exI)
  next
    case (Rx_Raised e)
    then have "r = Raises e" "ev = [Recv src 65536]"
      using "1.prems" sr by (simp_all add: relay_loop.simps[of src dst rs])
    then have "?P [] [Recv src 65536]"
      using sock_recv_raised[OF sr[unfolded Rx_Raised]] by simp
    then show ?thesis by (intro exI)
  next
    case (Rx_Got data)
    note rd = sock_recv_data[OF sr[unfolded Rx_Got]]
    show ?thesis
    proof (cases "data = []")
      case True
      then have "r = Returns ()" "ev = [Recv src 65536]"
        using "1.prems" sr Rx_Got by (simp_all add: relay_loop.simps[of src dst rs])
      then have "?P [] [Recv src 65536]"
        using rd(3)[OF _ True] by simp
      then show ?thesis by (intro exI)
    next
      case ne: False
      have len: "length data \<le> 65536" using rd(1) by simp
      have rb: "rx_bytes rs = data @ rx_bytes rs'" "rx_ends rs = rx_ends rs'"
        using rd(2)[OF _ ne] by simp_all
      show ?thesis
      proof (cases "case ts of [] \<Rightarrow> None | t # _ \<Rightarrow> t")
        case (Some e)
        then have ts: "ts ! 0 = Some e" "1 \<le> length ts" by (cases ts; simp)+
        have "r = Raises e" "ev = [Recv src 65536, Send_All dst data]"
          using "1.prems" sr Rx_Got ne Some by (simp_all add: relay_loop.simps[of src dst rs])
        then have "?P [data] []"
          using ne len rb ts by simp
        then show ?thesis by (intro exI)
      next
        case None
        obtain r' ev' where rec: "relay_loop src dst rs' (tl ts) = (r', ev')"
          by (cases "relay_loop src dst rs' (tl ts)")
        have rr: "r = r'" "ev = Recv src 65536 # Send_All dst data # ev'"
          using "1.prems" sr Rx_Got ne None rec by (simp_all add: relay_loop.simps[of src dst rs])
        from "1.IH"[OF sr[symmetric] Rx_Got ne None rec]
        obtain ds tail where ih:
          "ev' = concat (map (\<lambda>d. [Recv src 65536, Send_All dst d]) ds) @ tail"
          "\<forall>d\<in>set ds. d \<noteq> [] \<and> length d \<le> 65536"
          "prefix (concat ds) (rx_bytes rs')"
          "(r' \<noteq> Blocks \<and> tail = [Recv src 65536] \<and> concat ds = rx_bytes rs' \<and> rx_ends rs')
            \<or> ((\<exists>e. r' = Raises e \<and> tl ts ! (length ds - 1) = Some e) \<and> tail = [] \<and> ds \<noteq> []
              \<and> length ds \<le> length (tl ts))
            \<or> (r' = Blocks \<and> tail = [Recv src 65536] \<and> concat ds = rx_bytes rs' \<and> \<not> rx_ends rs')"
          "\<forall>t\<in>set (take (if tail = [] then length ds - 1 else length ds) (tl ts)). t = None"
          by blast
        have nth: "ts ! (length (data # ds) - 1) = tl ts ! (length ds - 1)"
          if "ds \<noteq> []" "length ds \<le> length (tl ts)"
        proof -
          from that obtain t ts' where "ts = t # ts'" by (cases ts) auto
          moreover from that(1) obtain k where "length ds = Suc k" by (cases ds) auto
          ultimately show ?thesis by simp
        qed
        have c1: "ev = concat (map (\<lambda>d. [Recv src 65536, Send_All dst d]) (data # ds)) @ tail"
          using ih(1) rr(2) by simp
        have c2: "\<forall>d\<in>set (data # ds). d \<noteq> [] \<and> length d \<le> 65536"
          using ih(2) ne len by simp
        have c3: "prefix (concat (data # ds)) (rx_bytes rs)"
          using ih(3) rb(1) by simp
        have c4: "(r \<noteq> Blocks \<and> tail = [Recv src 65536] \<and> concat (data # ds) = rx_bytes rs \<and> rx_ends rs)
         \<or> ((\<exists>e. r = Raises e \<and> ts ! (length (data # ds) - 1) = Some e) \<and> tail = [] \<and> data # ds \<noteq> []
              \<and> length (data # ds) \<le> length ts)
         \<or> (r = Blocks \<and> tail = [Recv src 65536] \<and> concat (data # ds) = rx_bytes rs \<and> \<not> rx_ends rs)"
          using ih(4)
        proof (elim disjE conjE exE)
          assume "r' \<noteq> Blocks" "tail = [Recv src 65536]" "concat ds = rx_bytes rs'" "rx_ends rs'"
          then show ?thesis using rr(1) rb by simp
        next
          fix e assume a: "r' = Raises e" "tl ts ! (length ds - 1) = Some e" "tail = []" "ds \<noteq> []"
            "length ds \<le> length (tl ts)"
          have "ts ! (length (data # ds) - 1) = Some e" using nth[OF a(4,5)] a(2) by simp
          moreover have "length (data # ds) \<le> length ts" using a(4,5) by (cases ts) auto
          ultimately show ?thesis using rr(1) a(1,3) by blast
        next
          assume "r' = Blocks" "tail = [Recv src 65536]" "concat ds = rx_bytes rs'" "\<not> rx_ends rs'"
          then show ?thesis using rr(1) rb by simp
        qed
        have nonempty: "ds \<noteq> []" if "tail = []"
          using ih(4) that by auto
        have c5: "\<forall>t\<in>set (take (if tail = [] then length (data # ds) - 1 else length (data # ds)) ts).
            t = None"
        proof (cases "tail = []")
          case True
          then obtain k where k: "length ds = Suc k" using nonempty by (cases ds) auto
          then show ?thesis using ih(5) True None by (cases ts) auto
        next
          case False
          then show ?thesis using ih(5) None by (cases ts) auto
        qed
        from c1 c2 c3 c4 c5 have "?P (data # ds) tail" by (intro conjI)
        then show ?thesis by (intro exI)
      qed
    qed
  qed
qed


lemma relay_example:
  "relay Client Upstream [Data ''ab'', Data ''c'', Data []] [] None
     = (Returns (),
        [Recv Client 65536, Send_All Upstream ''ab'', Recv Client 65536, Send_All Upstream ''c'',
         Recv Client 65536, Shutdown_Wr Upstream])"
  by (simp add: relay_def relay_loop.simps[of Client Upstream])

lemma relay_write_error_example:
  "relay Upstream Client [Data ''ab'', Data ''c'', Data ''d'', Data []] [None, Some OSError] None
     = (Returns (),
        [Recv Upstream 65536, Send_All Client ''ab'', Recv Upstream 65536, Send_All Client ''c'',
         Shutdown_Wr Client])"
  by (simp add: relay_def relay_loop.simps[of Upstream Client])

text \<open>
  Claim C6. The calls of a relay pump are, in this order: pairs of a \<^verbatim>\<open>recv\<close> of at
  most 65536 bytes on the source and a \<^verbatim>\<open>sendall\<close> to the destination of exactly
  the (non-empty, at most 65536 bytes long) data that \<^verbatim>\<open>recv\<close> returned, so that the
  data sent, taken together, is an initial part of what arrived, in the order of arrival.
  The pump ends in one of three ways. A \<^verbatim>\<open>recv\<close> returns no bytes or raises: no
  \<^verbatim>\<open>sendall\<close> has raised, all that arrived before has been sent, and the last call
  is the half-close \<^verbatim>\<open>shutdown(SHUT_WR)\<close> of the destination. A \<^verbatim>\<open>sendall\<close>
  raises: it is the first one that does and the last call but one, nothing is received or
  sent after it, and the half-close follows at once. Or nothing more arrives: no
  \<^verbatim>\<open>sendall\<close> has raised, all that arrived has been sent, and the last
  \<^verbatim>\<open>recv\<close> never returns. The pump never raises and never closes a socket.
\<close>

theorem relay_pump:
  assumes "relay src dst rs ts sd = (r, tr)"
  shows "\<exists>ds tail. tr = concat (map (\<lambda>d. [Recv src 65536, Send_All dst d]) ds) @ tail
      \<and> (\<forall>d\<in>set ds. d \<noteq> [] \<and> length d \<le> 65536)
      \<and> prefix (concat ds) (rx_bytes rs)
      \<and> ((r = Returns () \<and> tail = [Recv src 65536, Shutdown_Wr dst]
            \<and> concat ds = rx_bytes rs \<and> rx_ends rs
            \<and> (\<forall>t\<in>set (take (length ds) ts). t = None))
         \<or> (r = Returns () \<and> tail = [Shutdown_Wr dst] \<and> ds \<noteq> []
            \<and> (\<exists>e. ts ! (length ds - 1) = Some e) \<and> length ds \<le> length ts
            \<and> (\<forall>t\<in>set (take (length ds - 1) ts). t = None))
         \<or> (r = Blocks \<and> tail = [Recv src 65536] \<and> concat ds = rx_bytes rs \<and> \<not> rx_ends rs
            \<and> (\<forall>t\<in>set (take (length ds) ts). t = None)))"
proof -
  obtain r0 ev where rl: "relay_loop src dst rs ts = (r0, ev)"
    by (cases "relay_loop src dst rs ts")
  from relay_loop_shape[OF rl] obtain ds tail where sh:
    "ev = concat (map (\<lambda>d. [Recv src 65536, Send_All dst d]) ds) @ tail"
    "\<forall>d\<in>set ds. d \<noteq> [] \<and> length d \<le> 65536"
    "prefix (concat ds) (rx_bytes rs)"
    "(r0 \<noteq> Blocks \<and> tail = [Recv src 65536] \<and> concat ds = rx_bytes rs \<and> rx_ends rs)
       \<or> ((\<exists>e. r0 = Raises e \<and> ts ! (length ds - 1) = Some e) \<and> tail = [] \<and> ds \<noteq> []
            \<and> length ds \<le> length ts)
       \<or> (r0 = Blocks \<and> tail = [Recv src 65536] \<and> concat ds = rx_bytes rs \<and> \<not> rx_ends rs)"
    "\<forall>t\<in>set (take (if tail = [] then length ds - 1 else length ds) ts). t = None"
    by blast
  have res: "(r, tr) = (if r0 = Blocks then (Blocks, ev) else (Returns (), ev @ [Shutdown_Wr dst]))"
    using assms rl by (cases r0) (auto simp: relay_def)
  let ?Q = "\<lambda>tail. (r = Returns () \<and> tail = [Recv src 65536, Shutdown_Wr dst]
            \<and> concat ds = rx_bytes rs \<and> rx_ends rs
            \<and> (\<forall>t\<in>set (take (length ds) ts). t = None))
         \<or> (r = Returns () \<and> tail = [Shutdown_Wr dst] \<and> ds \<noteq> []
            \<and> (\<exists>e. ts ! (length ds - 1) = Some e) \<and> length ds \<le> length ts
            \<and> (\<forall>t\<in>set (take (length ds - 1) ts). t = None))
         \<or> (r = Blocks \<and> tail = [Recv src 65536] \<and> concat ds = rx_bytes rs \<and> \<not> rx_ends rs
            \<and> (\<forall>t\<in>set (take (length ds) ts). t = None))"
  from sh(4) have "\<exists>tail'. tr = concat (map (\<lambda>d. [Recv src 65536, Send_All dst d]) ds) @ tail'
      \<and> ?Q tail'"
  proof (elim disjE conjE exE)
    assume a: "r0 \<noteq> Blocks" "tail = [Recv src 65536]" "concat ds = rx_bytes rs" "rx_ends rs"
    then have "r = Returns ()"
      "tr = concat (map (\<lambda>d. [Recv src 65536, Send_All dst d]) ds) @ [Recv src 65536, Shutdown_Wr dst]"
      using res sh(1) by simp_all
    moreover have "\<forall>t\<in>set (take (length ds) ts). t = None" using sh(5) a(2) by simp
    ultimately show ?thesis using a(3,4) by blast
  next
    fix e assume a: "r0 = Raises e" "ts ! (length ds - 1) = Some e" "tail = []" "ds \<noteq> []"
      "length ds \<le> length ts"
    then have "r = Returns ()"
      "tr = concat (map (\<lambda>d. [Recv src 65536, Send_All dst d]) ds) @ [Shutdown_Wr dst]"
      using res sh(1) by simp_all
    moreover have "\<forall>t\<in>set (take (length ds - 1) ts). t = None" using sh(5) a(3) by simp
    ultimately show ?thesis using a(2,4,5) by blast
  next
    assume a: "r0 = Blocks" "tail = [Recv src 65536]" "concat ds = rx_bytes rs" "\<not> rx_ends rs"
    then have "r = Blocks"
      "tr = concat (map (\<lambda>d. [Recv src 65536, Send_All dst d]) ds) @ [Recv src 65536]"
      using res sh(1) by simp_all
    moreover have "\<forall>t\<in>set (take (length ds) ts). t = None" using sh(5) a(2) by simp
    ultimately show ?thesis using a(3,4) by blast
  qed
  then show ?thesis using sh(2,3) by blast
qed

theorem relay_pump_witness:
  "(\<exists>ds tail.
      [Recv Client 65536, Send_All Upstream ''ab'', Recv Client 65536, Send_All Upstream ''c'',
       Recv Client 65536, Shutdown_Wr Upstream]
        = concat (map (\<lambda>d. [Recv Client 65536, Send_All Upstream d]) ds) @ tail
      \<and> concat ds = ''abc'' \<and> tail = [Recv Client 65536, Shutdown_Wr Upstream])
   \<and> (\<exists>ds tail.
      [Recv Upstream 65536, Send_All Client ''ab'', Recv Upstream 65536, Send_All Client ''c'',
       Shutdown_Wr Client]
        = concat (map (\<lambda>d. [Recv Upstream 65536, Send_All Client d]) ds) @ tail
      \<and> prefix (concat ds) ''abcd'' \<and> tail = [Shutdown_Wr Client] \<and> length ds = 2)"
proof -
  have one: "\<exists>ds tail.
      [Recv Client 65536, Send_All Upstream ''ab'', Recv Client 65536, Send_All Upstream ''c'',
       Recv Client 65536, Shutdown_Wr Upstream]
        = concat (map (\<lambda>d. [Recv Client 65536, Send_All Upstream d]) ds) @ tail
      \<and> concat ds = ''abc'' \<and> tail = [Recv Client 65536, Shutdown_Wr Upstream]"
    using relay_pump[OF relay_example] by auto
  from relay_pump[OF relay_write_error_example] obtain ds tail where w:
    "[Recv Upstream 65536, Send_All Client ''ab'', Recv Upstream 65536, Send_All Client ''c'',
       Shutdown_Wr Client]
        = concat (map (\<lambda>d. [Recv Upstream 65536, Send_All Client d]) ds) @ tail"
    "prefix (concat ds) (rx_bytes [Data ''ab'', Data ''c'', Data ''d'', Data []])"
    "(tail = [Recv Upstream 65536, Shutdown_Wr Client]
        \<and> (\<forall>t\<in>set (take (length ds) [None, Some OSError]). t = None))
     \<or> (tail = [Shutdown_Wr Client] \<and> ds \<noteq> []
        \<and> (\<exists>e. [None, Some OSError] ! (length ds - 1) = Some e) \<and> length ds \<le> 2
        \<and> (\<forall>t\<in>set (take (length ds - 1) [None, Some OSError]). t = None))"
    by auto
  have len: "length
      [Recv Upstream 65536, Send_All Client ''ab'', Recv Upstream 65536, Send_All Client ''c'',
       Shutdown_Wr Client] = 2 * length ds + length tail"
    by (subst w(1)) (simp add: length_concat comp_def sum_list_triv)
  from w(3) have "tail = [Shutdown_Wr Client] \<and> length ds = 2"
  proof
    assume "tail = [Recv Upstream 65536, Shutdown_Wr Client]
        \<and> (\<forall>t\<in>set (take (length ds) [None, Some OSError]). t = None)"
    then show ?thesis using len by simp
  next
    assume a: "tail = [Shutdown_Wr Client] \<and> ds \<noteq> []
        \<and> (\<exists>e. [None, Some OSError] ! (length ds - 1) = Some e) \<and> length ds \<le> 2
        \<and> (\<forall>t\<in>set (take (length ds - 1) [None, Some OSError]). t = None)"
    then show ?thesis using len by simp
  qed
  then have "\<exists>ds tail.
      [Recv Upstream 65536, Send_All Client ''ab'', Recv Upstream 65536, Send_All Client ''c'',
       Shutdown_Wr Client]
        = concat (map (\<lambda>d. [Recv Upstream 65536, Send_All Client d]) ds) @ tail
      \<and> prefix (concat ds) ''abcd'' \<and> tail = [Shutdown_Wr Client] \<and> length ds = 2"
    using w(1,2) by auto
  with one show ?thesis by blast
qed


section \<open>Request Rewriter\<close>

lemma py_split_nonempty: "py_split s sep \<noteq> []"
  by (induction s sep rule: py_split.induct) (auto split: list.splits)

lemma py_join_cons: "ps \<noteq> [] \<Longrightarrow> py_join sep (p # ps) = p @ sep @ py_join sep ps"
  by (cases ps) auto

lemma py_join_split: "sep \<noteq> [] \<Longrightarrow> py_join sep (py_split s sep) = s"
proof (induction s sep rule: py_split.induct)
  case (1 sep)
  then show ?case by simp
next
  case (2 x xs sep)
  show ?case
  proof (cases "startswith (x # xs) sep")
    case True
    then obtain r where r: "x # xs = sep @ r" by (auto simp: startswith_iff)
    from 2(3) obtain a sep' where sep: "sep = a # sep'" by (cases sep) auto
    then have d: "drop (length sep - 1) xs = r" using r by simp
    have "py_join sep ([] # py_split (drop (length sep - 1) xs) sep)
        = sep @ py_join sep (py_split (drop (length sep - 1) xs) sep)"
      by (simp add: py_join_cons[OF py_split_nonempty])
    also have "\<dots> = sep @ r" using "2.IH"(1)[OF True 2(3)] d by simp
    finally have "py_join sep ([] # py_split (drop (length sep - 1) xs) sep) = x # xs"
      using r by simp
    moreover have "py_split (x # xs) sep = [] # py_split (drop (length sep - 1) xs) sep"
      using True by simp
    ultimately show ?thesis by (simp only:)
  next
    case False
    obtain l ls where sp: "py_split xs sep = l # ls"
      using py_split_nonempty[of xs sep] by (cases "py_split xs sep") auto
    have "py_join sep ((x # l) # ls) = x # py_join sep (l # ls)"
      by (cases ls) auto
    then show ?thesis using False sp "2.IH"(2)[OF False 2(3)] by simp
  qed
qed

lemma py_in_subset: "py_in sub s \<Longrightarrow> set sub \<subseteq> set s"
  unfolding py_in_iff by auto

lemma py_split_absent2: "\<not> py_in sep s \<Longrightarrow> py_split s sep = [s]"
  by (induction s sep rule: py_split.induct) auto

lemma py_split_piece:
  assumes "a \<noteq> b" "\<not> py_in [a, b] p"
  shows "py_split (p @ [a, b] @ r) [a, b] = p # py_split r [a, b]"
  using assms(2)
proof (induction p)
  case Nil
  then show ?case by simp
next
  case (Cons x p)
  have ns: "\<not> startswith (x # p @ a # b # r) [a, b]"
  proof (cases p)
    case Nil
    then show ?thesis using assms(1) by auto
  next
    case (Cons y p')
    then show ?thesis using Cons.prems by auto
  qed
  have "\<not> py_in [a, b] p" using Cons.prems by simp
  then show ?case using ns Cons.IH by simp
qed

lemma py_split_join:
  assumes "a \<noteq> b"
  shows "ps \<noteq> [] \<Longrightarrow> \<forall>p\<in>set ps. \<not> py_in [a, b] p \<Longrightarrow> py_split (py_join [a, b] ps) [a, b] = ps"
proof (induction ps)
  case Nil
  then show ?case by simp
next
  case (Cons p ps)
  show ?case
  proof (cases "ps = []")
    case True
    then show ?thesis using Cons.prems by (simp add: py_split_absent2)
  next
    case False
    have "py_split (p @ [a, b] @ py_join [a, b] ps) [a, b] = p # py_split (py_join [a, b] ps) [a, b]"
      using Cons.prems(2) by (intro py_split_piece[OF assms]) simp
    then show ?thesis
      using Cons.IH[OF False] Cons.prems(2) by (simp add: py_join_cons[OF False])
  qed
qed


lemma py_split_first_prefix:
  assumes "sep \<noteq> []" "py_split s sep = l # ls"
  shows "\<exists>r. s = l @ r"
proof -
  have "s = py_join sep (l # ls)" using py_join_split[OF assms(1), of s] assms(2) by simp
  then show ?thesis by (cases ls) auto
qed

lemma py_split_no_sep:
  "sep \<noteq> [] \<Longrightarrow> p \<in> set (py_split s sep) \<Longrightarrow> \<not> py_in sep p"
proof (induction s sep arbitrary: p rule: py_split.induct)
  case (1 sep)
  then show ?case by simp
next
  case (2 x xs sep)
  show ?case
  proof (cases "startswith (x # xs) sep")
    case True
    then have "p = [] \<or> p \<in> set (py_split (drop (length sep - 1) xs) sep)"
      using "2.prems"(2) by simp
    then show ?thesis using "2.IH"(1)[OF True "2.prems"(1)] "2.prems"(1) by auto
  next
    case False
    obtain l ls where sp: "py_split xs sep = l # ls"
      using py_split_nonempty[of xs sep] by (cases "py_split xs sep") auto
    then have p: "p = x # l \<or> p \<in> set ls" using "2.prems"(2) False by simp
    have ih: "\<not> py_in sep q" if "q \<in> set (l # ls)" for q
      using "2.IH"(2)[OF False "2.prems"(1)] that sp by simp
    obtain r where r: "xs = l @ r" using py_split_first_prefix[OF "2.prems"(1) sp] by blast
    have "\<not> startswith (x # l) sep"
    proof
      assume "startswith (x # l) sep"
      then obtain t where "x # l = sep @ t" by (auto simp: startswith_iff)
      then have "x # xs = sep @ t @ r" using r by simp
      then show False using False by (auto simp: startswith_iff)
    qed
    then have "\<not> py_in sep (x # l)" using ih[of l] by simp
    then show ?thesis using p ih by auto
  qed
qed

lemma foldl_append_lines:
  "foldl (\<lambda>acc h. if h \<noteq> [] then acc @ h @ sep else acc) acc hs
     = acc @ concat (map (\<lambda>h. h @ sep) (filter (\<lambda>h. h \<noteq> []) hs))"
  by (induction hs arbitrary: acc) auto

lemma rewrite_request_eq:
  assumes "py_split headers (ascii crlf) = request_line # rest_lines"
  shows "rewrite_request db auth_header headers =
     Inr (request_line,
          request_line @ ascii crlf @ auth_header
          @ concat (map (\<lambda>h. h @ ascii crlf)
              (filter (\<lambda>l. \<not> is_proxy_authorization db l \<and> l \<noteq> []) rest_lines))
          @ ascii crlf)"
proof -
  have "filter (\<lambda>h. h \<noteq> []) (filter (\<lambda>l. \<not> is_proxy_authorization db l) rest_lines)
      = filter (\<lambda>l. \<not> is_proxy_authorization db l \<and> l \<noteq> []) rest_lines"
    by (induction rest_lines) auto
  then show ?thesis
    using assms by (simp add: rewrite_request_def foldl_append_lines Let_def)
qed

lemma concat_lines_join:
  "concat (map (\<lambda>h. h @ sep) ps) @ sep = py_join sep (ps @ [[], []])"
  by (induction ps rule: py_join.induct[of _ sep]) auto


lemma b64_alphabet_length: "length b64_alphabet = 64"
  by (simp add: b64_alphabet_def)

lemma b64_alphabet_chars: "\<forall>c\<in>set b64_alphabet. of_char c < (128::nat) \<and> of_char c \<noteq> (13::nat)"
  by (simp add: b64_alphabet_def)

lemma b64_char_in: "b64_char i \<in> set b64_alphabet"
  by (simp add: b64_char_def b64_alphabet_length)

lemma b64encode_chars: "c \<in> set (b64encode bs) \<Longrightarrow> of_char c < (128::nat) \<and> of_char c \<noteq> (13::nat)"
proof (induction bs arbitrary: c rule: b64encode.induct)
  case 1
  then show ?case by simp
next
  case (2 a)
  then show ?case using b64_alphabet_chars b64_char_in by auto
next
  case (3 a b)
  then show ?case using b64_alphabet_chars b64_char_in by auto
next
  case (4 a b c' bs)
  then show ?case using b64_alphabet_chars b64_char_in by auto
qed

lemma py_lower_append: "py_lower db (a @ b) = py_lower db a @ py_lower db b"
  by (simp add: py_lower_def)

lemma auth_prefix_lower:
  "py_lower db (ascii ''Proxy-Authorization: Basic '')
     = ascii ''proxy-authorization:'' @ ascii '' basic ''"
  by (simp add: py_lower_def ascii_def)

lemma make_auth_header_shape:
  assumes "make_auth_header user password = Inr a"
  shows "\<exists>l. a = l @ ascii crlf \<and> is_proxy_authorization db l \<and> \<not> py_in (ascii crlf) l \<and> l \<noteq> []"
proof -
  obtain raw where enc: "utf8_encode (py_format user @ ascii '':'' @ py_format password) = Inr raw"
    using assms by (cases "utf8_encode (py_format user @ ascii '':'' @ py_format password)")
      (simp_all add: make_auth_header_def)
  have dec: "utf8_decode (b64encode raw) = Inr (ascii (b64encode raw))"
    by (rule utf8_decode_ascii) (use b64encode_chars in blast)
  have raw: "a = ascii ''Proxy-Authorization: Basic '' @ ascii (b64encode raw) @ ascii crlf"
    using assms by (simp add: make_auth_header_def enc dec)
  define l where "l = ascii ''Proxy-Authorization: Basic '' @ ascii (b64encode raw)"
  have pa: "is_proxy_authorization db l"
    unfolding is_proxy_authorization_def l_def py_lower_append auth_prefix_lower
    by (simp add: startswith_iff)
  have "13 \<notin> set (ascii ''Proxy-Authorization: Basic '')" by (simp add: ascii_def)
  moreover have "13 \<notin> set (ascii (b64encode raw))"
  proof
    assume "13 \<in> set (ascii (b64encode raw))"
    then obtain c where c: "c \<in> set (b64encode raw)" "of_char c = (13::nat)"
      unfolding ascii_def by auto
    from b64encode_chars[OF c(1)] c(2) show False by simp
  qed
  ultimately have "13 \<notin> set l" by (simp add: l_def)
  moreover have "13 \<in> set (ascii crlf)" by (simp add: ascii_def crlf_def)
  ultimately have "\<not> py_in (ascii crlf) l"
    using py_in_subset[of "ascii crlf" l] by blast
  moreover have "l \<noteq> []" by (simp add: l_def ascii_def)
  moreover have "a = l @ ascii crlf" using raw by (simp add: l_def)
  ultimately show ?thesis using pa by blast
qed


lemma ascii_crlf: "ascii crlf = [13, 10]"
  by (simp add: ascii_def crlf_def)

lemma not_proxy_authorization_empty: "\<not> is_proxy_authorization db []"
  by (simp add: is_proxy_authorization_def py_lower_def ascii_def)

lemma auth_example:
  "make_auth_header (Some (ascii ''user'')) (Some (ascii ''pw''))
     = Inr (ascii ''Proxy-Authorization: Basic dXNlcjpwdw=='' @ ascii crlf)"
proof -
  have e: "utf8_encode (ascii ''user:pw'') = Inr ''user:pw''"
    by (rule utf8_encode_ascii_bytes) simp
  have b: "b64encode ''user:pw'' = ''dXNlcjpwdw==''"
    by (simp add: b64_char_def b64_alphabet_def)
  have d: "utf8_decode ''dXNlcjpwdw=='' = Inr (ascii ''dXNlcjpwdw=='')"
    by (rule utf8_decode_ascii) simp
  have f: "py_format (Some (ascii ''user'')) @ ascii '':'' @ py_format (Some (ascii ''pw''))
      = ascii ''user:pw''"
    by (simp add: py_format_def ascii_def)
  show ?thesis
    unfolding make_auth_header_def Let_def f e sum.case b d by (simp add: ascii_def)
qed

lemma scenario_D_lines:
  "py_split (ascii (''GET http://x/ HTTP/1.1'' @ crlf @ ''Proxy-Authorization: Basic old'' @ crlf
        @ ''Host: x'')) (ascii crlf)
     = ascii ''GET http://x/ HTTP/1.1'' # [ascii ''Proxy-Authorization: Basic old'', ascii ''Host: x'']"
  by (simp add: ascii_def crlf_def)

lemma scenario_D_filter:
  "filter (\<lambda>l. \<not> is_proxy_authorization ascii_db l \<and> l \<noteq> [])
     [ascii ''Proxy-Authorization: Basic old'', ascii ''Host: x''] = [ascii ''Host: x'']"
  by (simp add: is_proxy_authorization_def py_lower_def ascii_def)


text \<open>
  Claim C3. Let the header text have the lines \<open>first # rest_lines\<close> (split at
  \<^verbatim>\<open>\r\n\<close>), with any number of lines among \<open>rest_lines\<close> whose lower-cased text
  starts with \<^verbatim>\<open>proxy-authorization:\<close>, and let \<open>auth_header\<close> be what \<open>main\<close>
  passes: empty, or the result of \<open>make_auth_header\<close>. Then the rewritten block, split
  at \<^verbatim>\<open>\r\n\<close> again, consists of the request line \<open>first\<close> unchanged, then the
  line of \<open>auth_header\<close> when it is not empty, then the non-empty lines of
  \<open>rest_lines\<close> that are not \<^verbatim>\<open>Proxy-Authorization\<close> lines, in their original
  order, and then two empty pieces: the block ends with \<^verbatim>\<open>\r\n\r\n\<close>. Among the
  lines after the request line exactly one is a \<^verbatim>\<open>Proxy-Authorization\<close> line when
  \<open>auth_header\<close> is not empty, and none is when it is empty.
\<close>

theorem rewrite_request_lines:
  assumes auth: "auth_header = [] \<or> make_auth_header user password = Inr auth_header"
    and lines: "py_split headers (ascii crlf) = first # rest_lines"
  shows "\<exists>new_headers auth_lines.
      rewrite_request db auth_header headers = Inr (first, new_headers)
    \<and> py_split new_headers (ascii crlf)
        = first # auth_lines
          @ filter (\<lambda>l. \<not> is_proxy_authorization db l \<and> l \<noteq> []) rest_lines @ [[], []]
    \<and> auth_header = concat (map (\<lambda>l. l @ ascii crlf) auth_lines)
    \<and> length auth_lines = (if auth_header = [] then 0 else 1)
    \<and> length (filter (is_proxy_authorization db) (tl (py_split new_headers (ascii crlf))))
        = (if auth_header = [] then 0 else 1)"
proof -
  define kept where "kept = filter (\<lambda>l. \<not> is_proxy_authorization db l \<and> l \<noteq> []) rest_lines"
  define new_headers where "new_headers = first @ ascii crlf @ auth_header
      @ concat (map (\<lambda>h. h @ ascii crlf) kept) @ ascii crlf"
  have rw: "rewrite_request db auth_header headers = Inr (first, new_headers)"
    unfolding new_headers_def kept_def by (rule rewrite_request_eq[OF lines])
  obtain auth_lines where al: "auth_header = concat (map (\<lambda>l. l @ ascii crlf) auth_lines)"
    "length auth_lines = (if auth_header = [] then 0 else 1)"
    "\<forall>l\<in>set auth_lines. is_proxy_authorization db l \<and> \<not> py_in (ascii crlf) l"
  proof (cases "auth_header = []")
    case True
    show ?thesis by (rule that[of "[]"]) (simp_all add: True)
  next
    case False
    with auth have "make_auth_header user password = Inr auth_header" by simp
    from make_auth_header_shape[OF this, of db] obtain l where
      l: "auth_header = l @ ascii crlf" "is_proxy_authorization db l" "\<not> py_in (ascii crlf) l"
      by blast
    show ?thesis by (rule that[of "[l]"]) (use l False in simp_all)
  qed
  have sep: "ascii crlf \<noteq> []" by (simp add: ascii_crlf)
  have nosep: "\<not> py_in (ascii crlf) p" if "p \<in> set (first # rest_lines)" for p
    using py_split_no_sep[OF sep, of p headers] that lines by simp
  have pieces: "\<forall>p\<in>set ((first # auth_lines @ kept) @ [[], []]). \<not> py_in [13, 10] p"
    using nosep al(3) by (auto simp: kept_def ascii_crlf)
  have "new_headers = concat (map (\<lambda>h. h @ ascii crlf) (first # auth_lines @ kept)) @ ascii crlf"
    unfolding new_headers_def by (simp add: al(1))
  also have "\<dots> = py_join (ascii crlf) ((first # auth_lines @ kept) @ [[], []])"
    by (rule concat_lines_join)
  finally have nh: "new_headers = py_join [13, 10] ((first # auth_lines @ kept) @ [[], []])"
    by (simp only: ascii_crlf)
  have sp: "py_split new_headers (ascii crlf) = (first # auth_lines @ kept) @ [[], []]"
    unfolding nh ascii_crlf by (rule py_split_join[OF _ _ pieces]) simp_all
  have "filter (is_proxy_authorization db) (auth_lines @ kept @ [[], []]) = auth_lines"
    using al(3) by (auto simp: kept_def not_proxy_authorization_empty filter_id_conv filter_empty_conv)
  then have cnt: "length (filter (is_proxy_authorization db) (tl (py_split new_headers (ascii crlf))))
      = (if auth_header = [] then 0 else 1)"
    using al(2) by (simp add: sp)
  show ?thesis
    using rw sp al(1,2) cnt unfolding kept_def by (intro exI[of _ new_headers] exI[of _ auth_lines]) simp
qed


theorem rewrite_request_lines_witness:
  "\<exists>new_headers auth_lines.
      rewrite_request ascii_db (ascii ''Proxy-Authorization: Basic dXNlcjpwdw=='' @ ascii crlf)
        (ascii (''GET http://x/ HTTP/1.1'' @ crlf @ ''Proxy-Authorization: Basic old'' @ crlf
           @ ''Host: x''))
        = Inr (ascii ''GET http://x/ HTTP/1.1'', new_headers)
    \<and> py_split new_headers (ascii crlf)
        = ascii ''GET http://x/ HTTP/1.1'' # auth_lines @ [ascii ''Host: x''] @ [[], []]
    \<and> ascii ''Proxy-Authorization: Basic dXNlcjpwdw=='' @ ascii crlf
        = concat (map (\<lambda>l. l @ ascii crlf) auth_lines)
    \<and> length auth_lines = 1
    \<and> length (filter (is_proxy_authorization ascii_db) (tl (py_split new_headers (ascii crlf)))) = 1"
proof -
  have ne: "ascii ''Proxy-Authorization: Basic dXNlcjpwdw=='' @ ascii crlf \<noteq> []"
    by (simp add: ascii_def)
  from rewrite_request_lines[OF disjI2[OF auth_example] scenario_D_lines, of ascii_db]
  show ?thesis unfolding scenario_D_filter if_not_P[OF ne] .
qed


section \<open>UTF-8\<close>

declare utf8_scan.simps(2) [simp del]

lemma utf8_scan_step:
  "utf8_scan (b # bs) = fst (utf8_step b bs) # utf8_scan (drop (snd (utf8_step b bs) - 1) bs)"
  by (simp add: utf8_scan.simps(2)[of b] utf8_step_def split: list.splits)


lemma list_upto3:
  obtains "bs = []" | x where "bs = [x]" | x y where "bs = [x, y]"
  | x y z zs where "bs = x # y # z # zs"
  by (cases bs; cases "tl bs"; cases "tl (tl bs)") auto

lemma utf8_step_ascii_append:
  assumes "c < 128"
  shows "utf8_step b (bs @ c # rest) = utf8_step b bs"
proof -
  have nc: "\<not> is_cont c" using assms by (simp add: is_cont_def)
  show ?thesis
    by (cases bs rule: list_upto3) (simp_all add: utf8_step_def nc)
qed

lemma utf8_step_count: "0 < snd (utf8_step b bs) \<and> snd (utf8_step b bs) - 1 \<le> length bs"
  by (cases bs rule: list_upto3) (simp_all add: utf8_step_def)


lemma utf8_scan_ascii_head: "c < 128 \<Longrightarrow> utf8_scan (c # rest) = Some c # utf8_scan rest"
  by (simp add: utf8_scan_step utf8_step_def)

lemma utf8_scan_ascii_boundary:
  "c < 128 \<Longrightarrow> utf8_scan (bs @ c # rest) = utf8_scan bs @ Some c # utf8_scan rest"
proof (induction "length bs" arbitrary: bs rule: less_induct)
  case less
  show ?case
  proof (cases bs)
    case Nil
    then show ?thesis using less.prems by (simp add: utf8_scan_ascii_head)
  next
    case (Cons b bs')
    define k where "k = snd (utf8_step b bs') - 1"
    have k: "k \<le> length bs'" unfolding k_def using utf8_step_count[of b bs'] by simp
    have "utf8_scan (bs @ c # rest)
        = fst (utf8_step b bs') # utf8_scan (drop k (bs' @ c # rest))"
      unfolding Cons by (simp add: utf8_scan_step utf8_step_ascii_append[OF less.prems] k_def)
    also have "drop k (bs' @ c # rest) = drop k bs' @ c # rest" using k by simp
    also have "utf8_scan (drop k bs' @ c # rest)
        = utf8_scan (drop k bs') @ Some c # utf8_scan rest"
      by (rule less.hyps[OF _ less.prems]) (simp add: Cons)
    finally show ?thesis
      unfolding Cons by (simp add: utf8_scan_step[of b bs'] k_def)
  qed
qed

lemma utf8_scan_ascii_suffix:
  "\<forall>c\<in>set cs. c < 128 \<Longrightarrow> utf8_scan (bs @ cs) = utf8_scan bs @ map Some cs"
proof (induction cs arbitrary: bs)
  case Nil
  then show ?case by simp
next
  case (Cons c cs)
  have "utf8_scan (bs @ c # cs) = utf8_scan bs @ Some c # utf8_scan cs"
    using Cons.prems by (intro utf8_scan_ascii_boundary) simp
  moreover have "utf8_scan cs = map Some cs"
    using Cons.IH[of "[]"] Cons.prems by simp
  ultimately show ?case by simp
qed

end
